theory Spec2Isabelle
  imports Main "HOL-Library.Word"
begin

unbundle bit_operations_syntax

section \<open>Data model\<close>

type_synonym u8 = "8 word"

text \<open>
  Struct \<^verbatim>\<open>TargetCpuInfo_t\<close>: the three signature bytes and the default fuse bytes of one
  target.
\<close>

record TargetCpuInfo_t =
  signature :: "u8 list"
  fuseLowBits :: u8
  fuseHighBits :: u8
  fuseExtendedBits :: u8

text \<open>
  Modelled from the spec: the macro \<^verbatim>\<open>SIGNATURE_0\<close>, which the source takes from the device
  header of avr-libc and which is not part of the repository. The spec gives the
  ATtiny13 signature as \<^verbatim>\<open>{0x1E,0x90,0x07}\<close>, so the macro is \<^verbatim>\<open>0x1E\<close> (the manufacturer
  byte shared by all AVR devices).
\<close>

definition SIGNATURE_0 :: u8 where
  "SIGNATURE_0 = 0x1E"

definition targetCpu :: "TargetCpuInfo_t list" where
  "targetCpu =
    [ \<lparr>signature = [SIGNATURE_0, 0x90, 0x07], fuseLowBits = 0x6A, fuseHighBits = 0xFF,
        fuseExtendedBits = 0x00\<rparr>,
      \<lparr>signature = [SIGNATURE_0, 0x91, 0x0B], fuseLowBits = 0x62, fuseHighBits = 0xDF,
        fuseExtendedBits = 0xFF\<rparr>,
      \<lparr>signature = [SIGNATURE_0, 0x92, 0x07], fuseLowBits = 0x62, fuseHighBits = 0xDF,
        fuseExtendedBits = 0xFF\<rparr>,
      \<lparr>signature = [SIGNATURE_0, 0x93, 0x0C], fuseLowBits = 0x62, fuseHighBits = 0xDF,
        fuseExtendedBits = 0xFF\<rparr>,
      \<lparr>signature = [SIGNATURE_0, 0x91, 0x08], fuseLowBits = 0x62, fuseHighBits = 0xDF,
        fuseExtendedBits = 0xFF\<rparr>,
      \<lparr>signature = [SIGNATURE_0, 0x92, 0x06], fuseLowBits = 0x62, fuseHighBits = 0xDF,
        fuseExtendedBits = 0xFF\<rparr>,
      \<lparr>signature = [SIGNATURE_0, 0x93, 0x0B], fuseLowBits = 0x62, fuseHighBits = 0xDF,
        fuseExtendedBits = 0xFF\<rparr>,
      \<lparr>signature = [0, 0, 0], fuseLowBits = 0, fuseHighBits = 0, fuseExtendedBits = 0\<rparr> ]"

text \<open>
  Pin numbers. \<^verbatim>\<open>PC0\<close> .. \<^verbatim>\<open>PC5\<close>, \<^verbatim>\<open>PB0\<close> and \<^verbatim>\<open>PB1\<close> are the bit positions 0 .. 5, 0 and 1
  in avr-libc.
\<close>

definition HVSP_SDI :: nat where "HVSP_SDI = 0"
definition HVSP_SII :: nat where "HVSP_SII = 1"
definition HVSP_SDO :: nat where "HVSP_SDO = 2"
definition HVSP_SCI :: nat where "HVSP_SCI = 3"
definition HVSP_VCC :: nat where "HVSP_VCC = 4"
definition HVSP_RST :: nat where "HVSP_RST = 5"
definition LED_PIN :: nat where "LED_PIN = 0"
definition SWITCH_PIN :: nat where "SWITCH_PIN = 1"

section \<open>Hardware state and observable trace\<close>

text \<open>
  Every access to an I/O register is a volatile access and every busy-wait delay takes
  time, so both are observable. The trace records them in program order: the value
  stored by each write to an output or direction register, the value obtained by each
  read of an input register, and each delay.
\<close>

datatype event =
    OutC u8 | DirC u8 | InC u8
  | OutB u8 | DirB u8 | InB u8
  | DelayUs nat | DelayMs nat

text \<open>
  The registers of ports B and C, and the environment: \<open>PINC_in s n\<close> (\<open>PINB_in s n\<close>) is
  the value the pins of port C (port B) show when the \<open>n\<close>-th input read of the run
  happens to read that port. \<open>reads\<close> counts the input reads made so far.
\<close>

record hw =
  PORTB :: u8
  DDRB :: u8
  PORTC :: u8
  DDRC :: u8
  PINB_in :: "nat \<Rightarrow> u8"
  PINC_in :: "nat \<Rightarrow> u8"
  reads :: nat
  trace :: "event list"

definition set_PORTC :: "u8 \<Rightarrow> hw \<Rightarrow> hw" where
  "set_PORTC v s = s\<lparr>PORTC := v, trace := trace s @ [OutC v]\<rparr>"

definition set_DDRC :: "u8 \<Rightarrow> hw \<Rightarrow> hw" where
  "set_DDRC v s = s\<lparr>DDRC := v, trace := trace s @ [DirC v]\<rparr>"

definition set_PORTB :: "u8 \<Rightarrow> hw \<Rightarrow> hw" where
  "set_PORTB v s = s\<lparr>PORTB := v, trace := trace s @ [OutB v]\<rparr>"

definition set_DDRB :: "u8 \<Rightarrow> hw \<Rightarrow> hw" where
  "set_DDRB v s = s\<lparr>DDRB := v, trace := trace s @ [DirB v]\<rparr>"

definition read_PINC :: "hw \<Rightarrow> u8 \<times> hw" where
  "read_PINC s =
    (PINC_in s (reads s),
     s\<lparr>reads := reads s + 1, trace := trace s @ [InC (PINC_in s (reads s))]\<rparr>)"

definition read_PINB :: "hw \<Rightarrow> u8 \<times> hw" where
  "read_PINB s =
    (PINB_in s (reads s),
     s\<lparr>reads := reads s + 1, trace := trace s @ [InB (PINB_in s (reads s))]\<rparr>)"

definition delay_us :: "nat \<Rightarrow> hw \<Rightarrow> hw" where
  "delay_us n s = s\<lparr>trace := trace s @ [DelayUs n]\<rparr>"

definition delay_ms :: "nat \<Rightarrow> hw \<Rightarrow> hw" where
  "delay_ms n s = s\<lparr>trace := trace s @ [DelayMs n]\<rparr>"

text \<open>\<^verbatim>\<open>PORTC |= (1 << pin)\<close> and \<^verbatim>\<open>PORTC &= ~(1 << pin)\<close>.\<close>

definition PORTC_set_bit :: "nat \<Rightarrow> hw \<Rightarrow> hw" where
  "PORTC_set_bit pin s = set_PORTC (PORTC s OR push_bit pin 1) s"

definition PORTC_clear_bit :: "nat \<Rightarrow> hw \<Rightarrow> hw" where
  "PORTC_clear_bit pin s = set_PORTC (PORTC s AND NOT (push_bit pin 1)) s"

definition DDRC_set_bit :: "nat \<Rightarrow> hw \<Rightarrow> hw" where
  "DDRC_set_bit pin s = set_DDRC (DDRC s OR push_bit pin 1) s"

definition DDRC_clear_bit :: "nat \<Rightarrow> hw \<Rightarrow> hw" where
  "DDRC_clear_bit pin s = set_DDRC (DDRC s AND NOT (push_bit pin 1)) s"

text \<open>\<^verbatim>\<open>PORTB |= (1 << pin)\<close>, \<^verbatim>\<open>PORTB &= ~(1 << pin)\<close> and \<^verbatim>\<open>PORTB ^= (1 << pin)\<close>.\<close>

definition PORTB_set_bit :: "nat \<Rightarrow> hw \<Rightarrow> hw" where
  "PORTB_set_bit pin s = set_PORTB (PORTB s OR push_bit pin 1) s"

definition PORTB_clear_bit :: "nat \<Rightarrow> hw \<Rightarrow> hw" where
  "PORTB_clear_bit pin s = set_PORTB (PORTB s AND NOT (push_bit pin 1)) s"

definition PORTB_toggle_bit :: "nat \<Rightarrow> hw \<Rightarrow> hw" where
  "PORTB_toggle_bit pin s = set_PORTB (PORTB s XOR push_bit pin 1) s"

definition DDRB_clear_bit :: "nat \<Rightarrow> hw \<Rightarrow> hw" where
  "DDRB_clear_bit pin s = set_DDRB (DDRB s AND NOT (push_bit pin 1)) s"

section \<open>Signal primitive and byte transfer\<close>

definition clockit :: "hw \<Rightarrow> hw" where
  "clockit s = PORTC_clear_bit HVSP_SCI (delay_us 1 (PORTC_set_bit HVSP_SCI s))"

text \<open>One pass through the body of the \<^verbatim>\<open>for\<close> loop of \<^verbatim>\<open>transferByte\<close>.\<close>

definition transfer_bit :: "u8 \<times> u8 \<times> u8 \<times> hw \<Rightarrow> u8 \<times> u8 \<times> u8 \<times> hw" where
  "transfer_bit = (\<lambda>(data, instruction, byteRead, s).
    let byteRead = push_bit 1 byteRead;
        (pins, s) = read_PINC s;
        byteRead = (if pins AND push_bit HVSP_SDO 1 \<noteq> 0 then byteRead OR 1 else byteRead);
        s = (if data AND 0x80 \<noteq> 0 then PORTC_set_bit HVSP_SDI s
             else PORTC_clear_bit HVSP_SDI s);
        s = (if instruction AND 0x80 \<noteq> 0 then PORTC_set_bit HVSP_SII s
             else PORTC_clear_bit HVSP_SII s);
        s = clockit s
    in (push_bit 1 data, push_bit 1 instruction, byteRead, s))"

function transfer_loop :: "u8 \<Rightarrow> u8 \<times> u8 \<times> u8 \<times> hw \<Rightarrow> u8 \<times> u8 \<times> u8 \<times> hw" where
  "transfer_loop i c = (if i < 8 then transfer_loop (i + 1) (transfer_bit c) else c)"
  by pat_completeness auto
termination
  by (relation "measure (\<lambda>(i, c). 8 - unat i)")
    (auto simp: word_less_nat_alt unat_word_ariths)

declare transfer_loop.simps [simp del]

definition transferByte :: "u8 \<Rightarrow> u8 \<Rightarrow> hw \<Rightarrow> u8 \<times> hw" where
  "transferByte data instruction s =
    (let s = PORTC_clear_bit HVSP_SDI s;
         s = PORTC_clear_bit HVSP_SII s;
         s = clockit s;
         (data, instruction, byteRead, s) = transfer_loop 0 (data, instruction, 0, s);
         s = PORTC_clear_bit HVSP_SDI s;
         s = PORTC_clear_bit HVSP_SII s;
         s = clockit s;
         s = clockit s
     in (byteRead, s))"

section \<open>High-voltage serial programming instructions\<close>

text \<open>
  \<^verbatim>\<open>pollSDO\<close> spins until the SDO pin reads high. The loop has no bound, so the result is an
  option: \<open>None\<close> is the run that never leaves the loop.
\<close>

partial_function (option) pollSDO :: "hw \<Rightarrow> hw option" where
  "pollSDO s =
    (case read_PINC s of
       (pins, s') \<Rightarrow> if 0 = pins AND push_bit HVSP_SDO 1 then pollSDO s' else Some s')"

definition getSignature :: "u8 \<Rightarrow> hw \<Rightarrow> u8 \<times> hw" where
  "getSignature code s =
    (let (_, s) = transferByte 0x08 0x4C s;
         (_, s) = transferByte code 0x0C s;
         (_, s) = transferByte 0x00 0x68 s
     in transferByte 0x00 0x6C s)"

definition writeFuseLowBits :: "u8 \<Rightarrow> hw \<Rightarrow> hw option" where
  "writeFuseLowBits code s =
    (let (_, s) = transferByte 0x40 0x4C s;
         (_, s) = transferByte code 0x2C s;
         (_, s) = transferByte 0x00 0x64 s;
         (_, s) = transferByte 0x00 0x6C s
     in case pollSDO s of
          None \<Rightarrow> None
        | Some s \<Rightarrow> (let (_, s) = transferByte 0x00 0x4C s in pollSDO s))"

definition writeFuseHighBits :: "u8 \<Rightarrow> hw \<Rightarrow> hw option" where
  "writeFuseHighBits code s =
    (let (_, s) = transferByte 0x40 0x4C s;
         (_, s) = transferByte code 0x2C s;
         (_, s) = transferByte 0x00 0x74 s;
         (_, s) = transferByte 0x00 0x7C s
     in case pollSDO s of
          None \<Rightarrow> None
        | Some s \<Rightarrow> (let (_, s) = transferByte 0x00 0x4C s in pollSDO s))"

definition writeFuseExtendedBits :: "u8 \<Rightarrow> hw \<Rightarrow> hw option" where
  "writeFuseExtendedBits code s =
    (let (_, s) = transferByte 0x40 0x4C s;
         (_, s) = transferByte code 0x2C s;
         (_, s) = transferByte 0x00 0x66 s;
         (_, s) = transferByte 0x00 0x6E s
     in case pollSDO s of
          None \<Rightarrow> None
        | Some s \<Rightarrow> (let (_, s) = transferByte 0x00 0x4C s in pollSDO s))"

definition readFuseLowBits :: "hw \<Rightarrow> u8 \<times> hw" where
  "readFuseLowBits s =
    (let (_, s) = transferByte 0x04 0x4C s;
         (_, s) = transferByte 0x00 0x68 s
     in transferByte 0x00 0x6C s)"

definition readFuseHighBits :: "hw \<Rightarrow> u8 \<times> hw" where
  "readFuseHighBits s =
    (let (_, s) = transferByte 0x04 0x4C s;
         (_, s) = transferByte 0x00 0x7A s
     in transferByte 0x00 0x7E s)"

definition readFuseExtendedBits :: "hw \<Rightarrow> u8 \<times> hw" where
  "readFuseExtendedBits s =
    (let (_, s) = transferByte 0x04 0x4C s;
         (_, s) = transferByte 0x00 0x6A s
     in transferByte 0x00 0x6E s)"

section \<open>The main program\<close>

text \<open>\<^verbatim>\<open>pgm_read_byte(&targetCpu[device].signature[k])\<close> for a record inside the array.\<close>

definition signature_byte :: "nat \<Rightarrow> nat \<Rightarrow> u8" where
  "signature_byte device k = signature (targetCpu ! device) ! k"

text \<open>
  The controlling expression of the \<^verbatim>\<open>if\<close> inside the device loop. \<^verbatim>\<open>&&\<close> evaluates from
  left to right and stops at the first operand that is false, so the second and third
  signature reads are only issued when the earlier bytes were equal.
\<close>

definition signature_matches :: "nat \<Rightarrow> hw \<Rightarrow> bool \<times> hw" where
  "signature_matches device s =
    (let (b0, s) = getSignature 0 s in
     if b0 = signature_byte device 0 then
       (let (b1, s) = getSignature 1 s in
        if b1 = signature_byte device 1 then
          (let (b2, s) = getSignature 2 s in (b2 = signature_byte device 2, s))
        else (False, s))
     else (False, s))"

text \<open>
  The controlling expression of the verification \<^verbatim>\<open>if\<close>, again with short-circuit evaluation
  of \<^verbatim>\<open>&&\<close> and \<^verbatim>\<open>||\<close>.
\<close>

definition verify :: "u8 \<Rightarrow> u8 \<Rightarrow> u8 \<Rightarrow> hw \<Rightarrow> bool \<times> hw" where
  "verify fuseLow fuseHigh fuseExtended s =
    (let (l, s) = readFuseLowBits s in
     if fuseLow = l then
       (let (h, s) = readFuseHighBits s in
        if fuseHigh = h then
          (if 0 = fuseExtended then (True, s)
           else (let (e, s) = readFuseExtendedBits s in (fuseExtended = e, s)))
        else (False, s))
     else (False, s))"

text \<open>
  The body of the \<^verbatim>\<open>if\<close> inside the device loop, up to the \<^verbatim>\<open>break\<close>: write the default
  fuses of record \<open>device\<close> and verify them. The result is the final value of
  \<^verbatim>\<open>fuseRestoreSuccessful\<close>, which is \<^verbatim>\<open>false\<close> before.
\<close>

definition restore_and_verify :: "nat \<Rightarrow> hw \<Rightarrow> (bool \<times> hw) option" where
  "restore_and_verify device s =
    (let fuseLow = fuseLowBits (targetCpu ! device);
         fuseHigh = fuseHighBits (targetCpu ! device);
         fuseExtended = fuseExtendedBits (targetCpu ! device)
     in case writeFuseLowBits fuseLow s of
          None \<Rightarrow> None
        | Some s \<Rightarrow>
            (case writeFuseHighBits fuseHigh s of
               None \<Rightarrow> None
             | Some s \<Rightarrow>
                 (case (if fuseExtended \<noteq> 0 then writeFuseExtendedBits fuseExtended s
                        else Some s) of
                    None \<Rightarrow> None
                  | Some s \<Rightarrow> Some (verify fuseLow fuseHigh fuseExtended s))))"

text \<open>
  The device loop \<^verbatim>\<open>for (device = 0; signature[0] of record device != 0; device++)\<close>. The
  source reads \<^verbatim>\<open>targetCpu[device]\<close> without a bound on \<open>device\<close>; the last record of
  the table has \<^verbatim>\<open>signature[0] = 0\<close> and ends the loop before \<open>device\<close> leaves the array
  (lemma \<open>device_loop_in_bounds\<close> below). The model ends the loop there as well.
\<close>

function restore_loop :: "nat \<Rightarrow> hw \<Rightarrow> (bool \<times> hw) option" where
  "restore_loop device s =
    (if device < length targetCpu \<and> signature_byte device 0 \<noteq> 0 then
       (case signature_matches device s of
          (True, s') \<Rightarrow> restore_and_verify device s'
        | (False, s') \<Rightarrow> restore_loop (device + 1) s')
     else Some (False, s))"
  by pat_completeness auto
termination
  by (relation "measure (\<lambda>(device, s). length targetCpu - device)") auto

declare restore_loop.simps [simp del]

definition main_init :: "hw \<Rightarrow> hw" where
  "main_init s =
    (let s = set_DDRB (push_bit LED_PIN 1) s;
         s = PORTB_set_bit LED_PIN s;
         s = DDRB_clear_bit SWITCH_PIN s;
         s = PORTB_set_bit SWITCH_PIN s
     in s)"

definition power_up :: "hw \<Rightarrow> hw" where
  "power_up s =
    (let s = DDRC_set_bit HVSP_SCI s;
         s = DDRC_set_bit HVSP_SII s;
         s = DDRC_set_bit HVSP_SDI s;
         s = DDRC_set_bit HVSP_SDO s;
         s = DDRC_set_bit HVSP_RST s;
         s = DDRC_set_bit HVSP_VCC s;
         s = PORTC_clear_bit HVSP_SCI s;
         s = PORTC_clear_bit HVSP_SII s;
         s = PORTC_clear_bit HVSP_SDI s;
         s = PORTC_clear_bit HVSP_SDO s;
         s = PORTC_set_bit HVSP_RST s;
         s = PORTC_clear_bit HVSP_VCC s;
         s = PORTC_set_bit HVSP_VCC s;
         s = delay_us 60 s;
         s = PORTC_clear_bit HVSP_RST s;
         s = delay_us 20 s;
         s = DDRC_clear_bit HVSP_SDO s;
         s = delay_us 300 s
     in s)"

definition power_down :: "hw \<Rightarrow> hw" where
  "power_down s =
    (let s = PORTC_clear_bit HVSP_SCI s;
         s = PORTC_clear_bit HVSP_SII s;
         s = PORTC_clear_bit HVSP_SDI s;
         s = PORTC_set_bit HVSP_RST s;
         s = delay_us 10 s;
         s = PORTC_clear_bit HVSP_VCC s
     in s)"

text \<open>The reporting loop \<^verbatim>\<open>for (i = 0; i < 16; i++)\<close>.\<close>

function report_loop :: "int \<Rightarrow> bool \<Rightarrow> hw \<Rightarrow> hw" where
  "report_loop i fuseRestoreSuccessful s =
    (if i < 16 then
       report_loop (i + 1) fuseRestoreSuccessful
         (delay_ms 250
           (if fuseRestoreSuccessful then PORTB_clear_bit LED_PIN s
            else PORTB_toggle_bit LED_PIN s))
     else s)"
  by pat_completeness auto
termination
  by (relation "measure (\<lambda>(i, ok, s). nat (16 - i))") auto

declare report_loop.simps [simp del]

text \<open>
  The statements guarded by the push button: one restore attempt. The result is the
  value of \<^verbatim>\<open>fuseRestoreSuccessful\<close> and the state when the attempt is over.
\<close>

definition attempt :: "hw \<Rightarrow> (bool \<times> hw) option" where
  "attempt s =
    (case restore_loop 0 (power_up s) of
       None \<Rightarrow> None
     | Some (fuseRestoreSuccessful, s) \<Rightarrow>
         Some (fuseRestoreSuccessful, report_loop 0 fuseRestoreSuccessful (power_down s)))"

text \<open>One pass through the body of \<^verbatim>\<open>while(1)\<close>.\<close>

definition main_body :: "hw \<Rightarrow> hw option" where
  "main_body s =
    (let s = PORTB_set_bit LED_PIN s;
         (pins, s) = read_PINB s
     in if 0 = pins AND push_bit SWITCH_PIN 1 then map_option snd (attempt s) else Some s)"

text \<open>
  \<^verbatim>\<open>main\<close> never returns; \<open>main_loop n\<close> is the state after \<open>n\<close> passes through the body
  of \<^verbatim>\<open>while(1)\<close>, and \<open>main n\<close> the same from reset.
\<close>

fun main_loop :: "nat \<Rightarrow> hw \<Rightarrow> hw option" where
  "main_loop 0 s = Some s"
| "main_loop (Suc n) s = (case main_body s of None \<Rightarrow> None | Some s' \<Rightarrow> main_loop n s')"

definition main :: "nat \<Rightarrow> hw \<Rightarrow> hw option" where
  "main n s = main_loop n (main_init s)"

section \<open>Observations on traces\<close>

text \<open>The events a run adds to the trace between state \<open>s\<close> and a later state \<open>s'\<close>.\<close>

definition emitted :: "hw \<Rightarrow> hw \<Rightarrow> event list" where
  "emitted s s' = drop (length (trace s)) (trace s')"

text \<open>\<open>sdo_high s n\<close>: the SDO pin is high at the \<open>n\<close>-th input read.\<close>

definition sdo_high :: "hw \<Rightarrow> nat \<Rightarrow> bool" where
  "sdo_high s n = bit (PINC_in s n) HVSP_SDO"

subsection \<open>The serial bus as the target sees it\<close>

text \<open>
  The target latches SDI and SII on each rising edge of SCI. \<open>Pulse sdi sii\<close> is a rising
  edge of the clock with the levels of the two output lines at that moment;
  \<open>Sample sdi sii sdo\<close> is a read of the input register that found SDO at level \<open>sdo\<close>
  while the output lines were at \<open>sdi\<close> and \<open>sii\<close>. \<open>bus_view p es\<close> reads them off the
  events \<open>es\<close>, where \<open>p\<close> is the value of the port register before the first event.
\<close>

datatype bus_event = Pulse bool bool | Sample bool bool bool

fun bus_view :: "u8 \<Rightarrow> event list \<Rightarrow> bus_event list" where
  "bus_view p [] = []"
| "bus_view p (OutC v # es) =
    (if \<not> bit p HVSP_SCI \<and> bit v HVSP_SCI
     then Pulse (bit v HVSP_SDI) (bit v HVSP_SII) # bus_view v es
     else bus_view v es)"
| "bus_view p (InC v # es) =
    Sample (bit p HVSP_SDI) (bit p HVSP_SII) (bit v HVSP_SDO) # bus_view p es"
| "bus_view p (e # es) = bus_view p es"

fun is_Pulse :: "bus_event \<Rightarrow> bool" where
  "is_Pulse (Pulse a b) = True"
| "is_Pulse (Sample a b c) = False"

text \<open>The value of the port register after the events \<open>es\<close>.\<close>

fun port_after :: "u8 \<Rightarrow> event list \<Rightarrow> u8" where
  "port_after p [] = p"
| "port_after p (OutC v # es) = port_after v es"
| "port_after p (e # es) = port_after p es"

subsection \<open>Frames\<close>

text \<open>
  A frame is eleven clock pulses: one with both lines low, eight that carry a data bit
  and an instruction bit each, most significant bit first, and two more with both lines
  low. The programmer samples SDO once before each of the eight middle pulses.
  \<open>decode\<close> is the receiver: it turns the bus events into frames \<open>Xfer data instruction
  response\<close>, where \<open>response\<close> collects the eight samples, and into \<open>Poll level\<close> for
  each sample taken between frames. Anything else is a \<open>Glitch\<close>.
\<close>

datatype item = Xfer u8 u8 u8 | Poll bool | Glitch

datatype receiver =
    Idle
  | Shift "(bool \<times> bool \<times> bool) list"
  | Latch "(bool \<times> bool \<times> bool) list" bool
  | Trail1 "(bool \<times> bool \<times> bool) list"
  | Trail2 "(bool \<times> bool \<times> bool) list"

text \<open>The byte with the given bits, most significant bit first.\<close>

definition byte_of :: "bool list \<Rightarrow> u8" where
  "byte_of bs = foldl (\<lambda>w b. push_bit 1 w OR of_bool b) 0 bs"

fun decode :: "receiver \<Rightarrow> bus_event list \<Rightarrow> item list" where
  "decode st [] = []"
| "decode Idle (Pulse a b # es) =
    (if a \<or> b then Glitch # decode Idle es else decode (Shift []) es)"
| "decode Idle (Sample a b r # es) = Poll r # decode Idle es"
| "decode (Shift acc) (Sample a b r # es) = decode (Latch acc r) es"
| "decode (Shift acc) (Pulse a b # es) = Glitch # decode Idle es"
| "decode (Latch acc r) (Pulse a b # es) =
    (if length acc < 7 then decode (Shift (acc @ [(a, b, r)])) es
     else decode (Trail1 (acc @ [(a, b, r)])) es)"
| "decode (Latch acc r) (Sample a b r' # es) = Glitch # decode Idle es"
| "decode (Trail1 acc) (Pulse a b # es) =
    (if a \<or> b then Glitch # decode Idle es else decode (Trail2 acc) es)"
| "decode (Trail1 acc) (Sample a b r # es) = Glitch # decode Idle es"
| "decode (Trail2 acc) (Pulse a b # es) =
    (if a \<or> b then Glitch # decode Idle es
     else Xfer (byte_of (map fst acc)) (byte_of (map (fst \<circ> snd) acc))
            (byte_of (map (snd \<circ> snd) acc)) # decode Idle es)"
| "decode (Trail2 acc) (Sample a b r # es) = Glitch # decode Idle es"

subsection \<open>Commands\<close>

text \<open>
  The instruction sequences the program uses, as they appear on the bus: the four frames
  of a signature read (with the byte index and the byte returned in the last frame), the
  four frames of a fuse write (with the value), the three frames of a fuse read (with the
  byte returned), the single load-no-operation frame, and the samples of a completion
  poll (\<open>Busy\<close> while SDO is low, \<open>Ready\<close> when it is high).
\<close>

datatype fuse = Low | High | Extended

datatype command =
    ReadSignature u8 u8
  | WriteFuse fuse u8
  | ReadFuse fuse u8
  | LoadNop
  | Busy
  | Ready
  | Unknown item

fun command4 :: "item \<Rightarrow> item \<Rightarrow> item \<Rightarrow> item \<Rightarrow> command option" where
  "command4 (Xfer d1 i1 r1) (Xfer d2 i2 r2) (Xfer d3 i3 r3) (Xfer d4 i4 r4) =
    (if d1 = 0x08 \<and> i1 = 0x4C \<and> i2 = 0x0C \<and> d3 = 0 \<and> i3 = 0x68 \<and> d4 = 0 \<and> i4 = 0x6C
     then Some (ReadSignature d2 r4)
     else if d1 = 0x40 \<and> i1 = 0x4C \<and> i2 = 0x2C \<and> d3 = 0 \<and> i3 = 0x64 \<and> d4 = 0 \<and> i4 = 0x6C
     then Some (WriteFuse Low d2)
     else if d1 = 0x40 \<and> i1 = 0x4C \<and> i2 = 0x2C \<and> d3 = 0 \<and> i3 = 0x74 \<and> d4 = 0 \<and> i4 = 0x7C
     then Some (WriteFuse High d2)
     else if d1 = 0x40 \<and> i1 = 0x4C \<and> i2 = 0x2C \<and> d3 = 0 \<and> i3 = 0x66 \<and> d4 = 0 \<and> i4 = 0x6E
     then Some (WriteFuse Extended d2)
     else None)"
| "command4 a b c d = None"

fun command3 :: "item \<Rightarrow> item \<Rightarrow> item \<Rightarrow> command option" where
  "command3 (Xfer d1 i1 r1) (Xfer d2 i2 r2) (Xfer d3 i3 r3) =
    (if d1 = 0x04 \<and> i1 = 0x4C \<and> d2 = 0 \<and> i2 = 0x68 \<and> d3 = 0 \<and> i3 = 0x6C
     then Some (ReadFuse Low r3)
     else if d1 = 0x04 \<and> i1 = 0x4C \<and> d2 = 0 \<and> i2 = 0x7A \<and> d3 = 0 \<and> i3 = 0x7E
     then Some (ReadFuse High r3)
     else if d1 = 0x04 \<and> i1 = 0x4C \<and> d2 = 0 \<and> i2 = 0x6A \<and> d3 = 0 \<and> i3 = 0x6E
     then Some (ReadFuse Extended r3)
     else None)"
| "command3 a b c = None"

fun command1 :: "item \<Rightarrow> command" where
  "command1 (Xfer d i r) = (if d = 0 \<and> i = 0x4C then LoadNop else Unknown (Xfer d i r))"
| "command1 (Poll b) = (if b then Ready else Busy)"
| "command1 Glitch = Unknown Glitch"

fun parse4 :: "item list \<Rightarrow> command option" where
  "parse4 (a # b # c # d # xs) = command4 a b c d"
| "parse4 xs = None"

fun parse3 :: "item list \<Rightarrow> command option" where
  "parse3 (a # b # c # xs) = command3 a b c"
| "parse3 xs = None"

function commands :: "item list \<Rightarrow> command list" where
  "commands [] = []"
| "commands (a # xs) =
    (case parse4 (a # xs) of
       Some c \<Rightarrow> c # commands (drop 3 xs)
     | None \<Rightarrow>
        (case parse3 (a # xs) of
           Some c \<Rightarrow> c # commands (drop 2 xs)
         | None \<Rightarrow> command1 a # commands xs))"
  by pat_completeness auto
termination
  by (relation "measure length") auto

declare commands.simps(2) [simp del]

text \<open>The commands a run puts on the bus between state \<open>s\<close> and a later state \<open>s'\<close>.\<close>

definition commands_of :: "hw \<Rightarrow> hw \<Rightarrow> command list" where
  "commands_of s s' = commands (decode Idle (bus_view (PORTC s) (emitted s s')))"

fun signature_reads :: "command list \<Rightarrow> (u8 \<times> u8) list" where
  "signature_reads [] = []"
| "signature_reads (ReadSignature k r # cs) = (k, r) # signature_reads cs"
| "signature_reads (c # cs) = signature_reads cs"

fun fuse_writes :: "command list \<Rightarrow> (fuse \<times> u8) list" where
  "fuse_writes [] = []"
| "fuse_writes (WriteFuse f v # cs) = (f, v) # fuse_writes cs"
| "fuse_writes (c # cs) = fuse_writes cs"

fun fuse_reads :: "command list \<Rightarrow> (fuse \<times> u8) list" where
  "fuse_reads [] = []"
| "fuse_reads (ReadFuse f v # cs) = (f, v) # fuse_reads cs"
| "fuse_reads (c # cs) = fuse_reads cs"

section \<open>Closed forms used in the proofs\<close>

text \<open>
  \<open>drive p sdi sii sci\<close> is the port value \<open>p\<close> with the three serial output lines set to
  the given levels; every value the transfer routine writes has this form.
\<close>

definition drive :: "u8 \<Rightarrow> bool \<Rightarrow> bool \<Rightarrow> bool \<Rightarrow> u8" where
  "drive p sdi sii sci =
    (p AND NOT (2 ^ HVSP_SDI) AND NOT (2 ^ HVSP_SII) AND NOT (2 ^ HVSP_SCI))
      OR push_bit HVSP_SDI (of_bool sdi) OR push_bit HVSP_SII (of_bool sii)
      OR push_bit HVSP_SCI (of_bool sci)"

text \<open>The events of one clock pulse and of one pass through the transfer loop.\<close>

definition clk :: "u8 \<Rightarrow> bool \<Rightarrow> bool \<Rightarrow> event list" where
  "clk p a b = [OutC (drive p a b True), DelayUs 1, OutC (drive p a b False)]"

definition cycle :: "u8 \<Rightarrow> bool \<Rightarrow> bool \<Rightarrow> u8 \<Rightarrow> event list" where
  "cycle p a b v =
    [InC v, OutC (drive p a (bit p HVSP_SII) (bit p HVSP_SCI)),
     OutC (drive p a b (bit p HVSP_SCI))] @ clk p a b"

definition shl :: "u8 \<Rightarrow> u8" where
  "shl w = push_bit 1 w"

definition shift_in :: "u8 \<Rightarrow> u8 \<Rightarrow> u8" where
  "shift_in r v = (if bit v HVSP_SDO then push_bit 1 r OR 1 else push_bit 1 r)"

text \<open>The byte assembled from the eight input reads \<open>t\<close>, .., \<open>t + 7\<close>.\<close>

definition rx_byte :: "(nat \<Rightarrow> u8) \<Rightarrow> nat \<Rightarrow> u8" where
  "rx_byte f t = foldl (\<lambda>r k. shift_in r (f (t + k))) 0 [0, 1, 2, 3, 4, 5, 6, 7]"

text \<open>The events of one call of \<open>transferByte\<close>.\<close>

definition xfer_events :: "u8 \<Rightarrow> u8 \<Rightarrow> u8 \<Rightarrow> (nat \<Rightarrow> u8) \<Rightarrow> nat \<Rightarrow> event list" where
  "xfer_events p d i f t =
    [OutC (drive p False (bit p HVSP_SII) (bit p HVSP_SCI)),
     OutC (drive p False False (bit p HVSP_SCI))]
    @ clk p False False
    @ cycle (drive p False False False) (bit d 7) (bit i 7) (f t)
    @ cycle (drive p (bit d 7) (bit i 7) False) (bit d 6) (bit i 6) (f (t + 1))
    @ cycle (drive p (bit d 6) (bit i 6) False) (bit d 5) (bit i 5) (f (t + 2))
    @ cycle (drive p (bit d 5) (bit i 5) False) (bit d 4) (bit i 4) (f (t + 3))
    @ cycle (drive p (bit d 4) (bit i 4) False) (bit d 3) (bit i 3) (f (t + 4))
    @ cycle (drive p (bit d 3) (bit i 3) False) (bit d 2) (bit i 2) (f (t + 5))
    @ cycle (drive p (bit d 2) (bit i 2) False) (bit d 1) (bit i 1) (f (t + 6))
    @ cycle (drive p (bit d 1) (bit i 1) False) (bit d 0) (bit i 0) (f (t + 7))
    @ [OutC (drive p False (bit i 0) False), OutC (drive p False False False)]
    @ clk p False False @ clk p False False"

section \<open>A concrete board\<close>

text \<open>
  The board after reset: all I/O registers are zero, the push button is held down (the
  pins of port B read 0) and the pins of port C show \<open>f\<close>.
\<close>

definition bench :: "(nat \<Rightarrow> u8) \<Rightarrow> hw" where
  "bench f =
    \<lparr>PORTB = 0, DDRB = 0, PORTC = 0, DDRC = 0, PINB_in = (\<lambda>n. 0), PINC_in = f, reads = 0,
     trace = []\<rparr>"

text \<open>The events of a sequence of transfers, and the frames they put on the bus.\<close>

fun xfers :: "u8 \<Rightarrow> (u8 \<times> u8) list \<Rightarrow> (nat \<Rightarrow> u8) \<Rightarrow> nat \<Rightarrow> event list" where
  "xfers p [] f t = []"
| "xfers p ((d, i) # ds) f t = xfer_events p d i f t @ xfers (drive p False False False) ds f (t + 8)"

fun frames :: "(u8 \<times> u8) list \<Rightarrow> (nat \<Rightarrow> u8) \<Rightarrow> nat \<Rightarrow> item list" where
  "frames [] f t = []"
| "frames ((d, i) # ds) f t = Xfer d i (rx_byte f t) # frames ds f (t + 8)"

text \<open>
  \<open>poll_ends f t k\<close>: a completion poll that starts with input read \<open>t\<close> finds SDO high
  for the first time at read \<open>k\<close>.
\<close>

definition poll_ends :: "(nat \<Rightarrow> u8) \<Rightarrow> nat \<Rightarrow> nat \<Rightarrow> bool" where
  "poll_ends f t k = (t \<le> k \<and> bit (f k) HVSP_SDO \<and> (\<forall>j. t \<le> j \<and> j < k \<longrightarrow> \<not> bit (f j) HVSP_SDO))"

definition poll_events :: "(nat \<Rightarrow> u8) \<Rightarrow> nat \<Rightarrow> nat \<Rightarrow> event list" where
  "poll_events f t k = map (\<lambda>j. InC (f j)) [t..<Suc k]"

text \<open>
  The common shape of the three fuse-write routines: four transfers, of which the last
  two carry the instruction bytes \<open>i3\<close> and \<open>i4\<close>, a completion poll, the
  load-no-operation transfer and a second poll.
\<close>

definition write_seq :: "u8 \<Rightarrow> u8 \<Rightarrow> u8 \<Rightarrow> hw \<Rightarrow> hw option" where
  "write_seq i3 i4 code s =
    (let (_, s) = transferByte 0x40 0x4C s;
         (_, s) = transferByte code 0x2C s;
         (_, s) = transferByte 0x00 i3 s;
         (_, s) = transferByte 0x00 i4 s
     in case pollSDO s of
          None \<Rightarrow> None
        | Some s \<Rightarrow> (let (_, s) = transferByte 0x00 0x4C s in pollSDO s))"

text \<open>
  \<open>polled_write run cmd s\<close>: started in \<open>s\<close>, the routine \<open>run\<close> samples SDO 32 times
  during its four transfers, so its first poll starts with input read \<open>reads s + 32\<close>; if
  that poll ends at read \<open>k1\<close>, the load-no-operation transfer takes the next 8 reads and
  the second poll starts with read \<open>k1 + 9\<close>. The routine never returns when SDO stays low
  throughout one of the polls, and returns when each poll finds SDO high; the bus then
  shows \<open>cmd\<close>, the first poll, the load-no-operation frame and the second poll.
\<close>

definition polled_write :: "(hw \<Rightarrow> hw option) \<Rightarrow> command \<Rightarrow> hw \<Rightarrow> bool" where
  "polled_write run cmd s \<longleftrightarrow>
    ((\<forall>k\<ge>reads s + 32. \<not> sdo_high s k) \<longrightarrow> run s = None) \<and>
    (\<forall>k1. poll_ends (PINC_in s) (reads s + 32) k1 \<and> (\<forall>k\<ge>k1 + 9. \<not> sdo_high s k) \<longrightarrow>
       run s = None) \<and>
    (\<forall>k1 k2. poll_ends (PINC_in s) (reads s + 32) k1 \<and> poll_ends (PINC_in s) (k1 + 9) k2 \<longrightarrow>
       (\<exists>s'. run s = Some s' \<and> reads s' = Suc k2 \<and>
          commands_of s s' =
            cmd # replicate (k1 - (reads s + 32)) Busy @ [Ready, LoadNop]
              @ replicate (k2 - (k1 + 9)) Busy @ [Ready]))"

text \<open>The frames a run puts on the bus between state \<open>s\<close> and a later state \<open>s'\<close>.\<close>

definition items_of :: "hw \<Rightarrow> hw \<Rightarrow> item list" where
  "items_of s s' = decode Idle (bus_view (PORTC s) (emitted s s'))"

text \<open>
  \<open>serial_only p es\<close>: the events \<open>es\<close> are reads of the input register, clock delays
  and writes to the port that change nothing but the three serial output lines of \<open>p\<close>.
\<close>

definition serial_only :: "u8 \<Rightarrow> event list \<Rightarrow> bool" where
  "serial_only p es \<longleftrightarrow>
    (\<forall>e\<in>set es. (\<exists>v. e = InC v) \<or> e = DelayUs 1 \<or> (\<exists>a b c. e = OutC (drive p a b c)))"

text \<open>
  \<open>seg s s'\<close>: the run from \<open>s\<close> to \<open>s'\<close> only talks on the serial bus, and it starts and
  ends between commands with the clock line low, so that what the bus shows during the
  run is independent of what follows.
\<close>

definition seg :: "hw \<Rightarrow> hw \<Rightarrow> bool" where
  "seg s s' \<longleftrightarrow>
    trace s' = trace s @ emitted s s' \<and>
    serial_only (PORTC s) (emitted s s') \<and>
    port_after (PORTC s) (emitted s s') = PORTC s' \<and>
    \<not> bit (PORTC s') HVSP_SCI \<and>
    PINC_in s' = PINC_in s \<and> PINB_in s' = PINB_in s \<and> reads s \<le> reads s' \<and>
    PORTB s' = PORTB s \<and> DDRB s' = DDRB s \<and> DDRC s' = DDRC s \<and>
    (\<forall>es. decode Idle (bus_view (PORTC s) (emitted s s' @ es)) =
       items_of s s' @ decode Idle (bus_view (PORTC s') es)) \<and>
    (\<forall>ys. commands (items_of s s' @ ys) = commands_of s s' @ commands ys)"

text \<open>
  \<open>responsive s\<close>: the target raises SDO again and again, so that every completion poll
  of the run ends.
\<close>

definition responsive :: "hw \<Rightarrow> bool" where
  "responsive s \<longleftrightarrow> (\<forall>t. \<exists>k\<ge>t. sdo_high s k)"

text \<open>The board after reset on which SDO reads high at every input read.\<close>

definition high_board :: hw where
  "high_board = bench (\<lambda>n. 4)"

text \<open>The fuse values record \<open>device\<close> asks for, in the order in which they are written.\<close>

definition default_fuses :: "nat \<Rightarrow> (fuse \<times> u8) list" where
  "default_fuses device =
    [(Low, fuseLowBits (targetCpu ! device)), (High, fuseHighBits (targetCpu ! device))]
    @ (if fuseExtendedBits (targetCpu ! device) \<noteq> 0
       then [(Extended, fuseExtendedBits (targetCpu ! device))] else [])"

section \<open>The device scan\<close>

text \<open>
  The scan performed by the device loop: the loop of \<open>restore_loop\<close> without the body of
  its \<^verbatim>\<open>if\<close>. It returns the index of the record at which the loop enters the body, or
  \<open>None\<close> when the loop ends at the terminator, and the state at that point
  (lemma \<open>restore_loop_scan\<close> below).
\<close>

function scan_devices :: "nat \<Rightarrow> hw \<Rightarrow> nat option \<times> hw" where
  "scan_devices device s =
    (if device < length targetCpu \<and> signature_byte device 0 \<noteq> 0 then
       (case signature_matches device s of
          (True, s') \<Rightarrow> (Some device, s')
        | (False, s') \<Rightarrow> scan_devices (device + 1) s')
     else (None, s))"
  by pat_completeness auto
termination
  by (relation "measure (\<lambda>(device, s). length targetCpu - device)") auto

declare scan_devices.simps [simp del]

text \<open>
  \<open>signature_answers sig device s\<close>: the target has the live signature \<open>sig\<close>, that is, in
  the scan that starts at record \<open>device\<close> in state \<open>s\<close> every signature read asks for one
  of the bytes 0, 1, 2 and is answered with that byte of \<open>sig\<close>.
\<close>

definition signature_answers :: "u8 list \<Rightarrow> nat \<Rightarrow> hw \<Rightarrow> bool" where
  "signature_answers sig device s \<longleftrightarrow>
    (\<forall>(k, r) \<in> set (signature_reads (commands_of s (snd (scan_devices device s)))).
       k < 3 \<and> r = sig ! unat k)"

text \<open>
  The lookup as the specification words it: go through the records in order, return the
  first record whose signature equals the live signature, or no match if the terminator
  record (all-zero signature) is reached first.
\<close>

fun find_device :: "TargetCpuInfo_t list \<Rightarrow> u8 list \<Rightarrow> TargetCpuInfo_t option" where
  "find_device [] sig = None"
| "find_device (r # rs) sig =
    (if signature r = [0, 0, 0] then None
     else if signature r = sig then Some r
     else find_device rs sig)"

text \<open>
  The byte indices of the signature reads of a scan against a target with live signature
  \<open>sig\<close>: for each record examined, index 0 always, index 1 only if byte 0 of the record
  matched, index 2 only if bytes 0 and 1 matched; the scan stops after the record that
  matches in all three bytes.
\<close>

fun signature_queries :: "TargetCpuInfo_t list \<Rightarrow> u8 list \<Rightarrow> u8 list" where
  "signature_queries [] sig = []"
| "signature_queries (r # rs) sig =
    (if signature r ! 0 = 0 then []
     else 0 # (if sig ! 0 = signature r ! 0
               then 1 # (if sig ! 1 = signature r ! 1 then [2] else [])
               else [])
          @ (if signature r = sig then [] else signature_queries rs sig))"

text \<open>
  The board after reset with an ATtiny13 that works: SDO carries the signature bytes
  \<^verbatim>\<open>0x1E\<close>, \<^verbatim>\<open>0x90\<close>, \<^verbatim>\<open>0x07\<close> during the last transfer of the first three signature
  reads (input reads 24 to 31, 56 to 63 and 88 to 95), the value \<^verbatim>\<open>0x6A\<close> during the last
  transfer of the read of the low fuse byte (input reads 196 to 203), and is high at every
  other read.
\<close>

definition tiny13_sdo :: "nat \<Rightarrow> u8" where
  "tiny13_sdo n =
    (if n \<in> {24, 25, 26, 31, 57, 58, 60, 61, 62, 63, 88, 89, 90, 91, 92, 196, 199, 201, 203}
     then 0 else 4)"

definition tiny13_board :: hw where
  "tiny13_board = bench tiny13_sdo"


section \<open>Power sequencing and the indicator\<close>

text \<open>The port value \<open>p\<close> with pin \<open>n\<close> set, and with pin \<open>n\<close> cleared.\<close>

definition set_pin :: "nat \<Rightarrow> u8 \<Rightarrow> u8" where
  "set_pin n p = p OR push_bit n 1"

definition clear_pin :: "nat \<Rightarrow> u8 \<Rightarrow> u8" where
  "clear_pin n p = p AND NOT (push_bit n 1)"

text \<open>
  The reset line is driven through an inverting transistor: the 12 V programming voltage
  is applied to the target while the pin \<^verbatim>\<open>HVSP_RST\<close> is low. The supply of the target is on
  while the pin \<^verbatim>\<open>HVSP_VCC\<close> is high.
\<close>

definition hv_on :: "u8 \<Rightarrow> bool" where
  "hv_on v = (\<not> bit v HVSP_RST)"

definition vcc_on :: "u8 \<Rightarrow> bool" where
  "vcc_on v = bit v HVSP_VCC"

text \<open>
  \<open>power_safe p es\<close>: no write to the port among the events \<open>es\<close> switches the supply of
  the target off while the programming voltage is applied; \<open>p\<close> is the value of the port
  register before the first event.
\<close>

fun power_safe :: "u8 \<Rightarrow> event list \<Rightarrow> bool" where
  "power_safe p [] = True"
| "power_safe p (OutC v # es) =
    ((vcc_on p \<and> \<not> vcc_on v \<longrightarrow> \<not> hv_on p \<and> \<not> hv_on v) \<and> power_safe v es)"
| "power_safe p (e # es) = power_safe p es"

text \<open>The events of the power-down sequence, started with port value \<open>p\<close>.\<close>

definition power_down_events :: "u8 \<Rightarrow> event list" where
  "power_down_events p =
    (let p1 = clear_pin HVSP_SCI p;
         p2 = clear_pin HVSP_SII p1;
         p3 = clear_pin HVSP_SDI p2;
         p4 = set_pin HVSP_RST p3;
         p5 = clear_pin HVSP_VCC p4
     in [OutC p1, OutC p2, OutC p3, OutC p4, DelayUs 10, OutC p5])"

text \<open>
  The value of the port register after the power-up sequence, and the events of the
  sequence, started with direction register \<open>d\<close> and port register \<open>p\<close>.
\<close>

definition power_up_port :: "u8 \<Rightarrow> u8" where
  "power_up_port p =
    clear_pin HVSP_RST (set_pin HVSP_VCC (clear_pin HVSP_VCC (set_pin HVSP_RST
      (clear_pin HVSP_SDO (clear_pin HVSP_SDI (clear_pin HVSP_SII (clear_pin HVSP_SCI p)))))))"

definition power_up_events :: "u8 \<Rightarrow> u8 \<Rightarrow> event list" where
  "power_up_events d p =
    (let d1 = set_pin HVSP_SCI d;
         d2 = set_pin HVSP_SII d1;
         d3 = set_pin HVSP_SDI d2;
         d4 = set_pin HVSP_SDO d3;
         d5 = set_pin HVSP_RST d4;
         d6 = set_pin HVSP_VCC d5;
         p1 = clear_pin HVSP_SCI p;
         p2 = clear_pin HVSP_SII p1;
         p3 = clear_pin HVSP_SDI p2;
         p4 = clear_pin HVSP_SDO p3;
         p5 = set_pin HVSP_RST p4;
         p6 = clear_pin HVSP_VCC p5;
         p7 = set_pin HVSP_VCC p6;
         p8 = clear_pin HVSP_RST p7
     in [DirC d1, DirC d2, DirC d3, DirC d4, DirC d5, DirC d6,
         OutC p1, OutC p2, OutC p3, OutC p4, OutC p5, OutC p6, OutC p7, DelayUs 60,
         OutC p8, DelayUs 20, DirC (clear_pin HVSP_SDO d6), DelayUs 300])"

text \<open>
  The indicator is lit while the pin \<^verbatim>\<open>LED_PIN\<close> is low. \<open>indicator es\<close> lists, for the writes
  to port B among the events \<open>es\<close>, whether the indicator is lit after the write, and
  \<open>delays_ms es\<close> lists the millisecond delays among \<open>es\<close>.
\<close>

definition led_on :: "u8 \<Rightarrow> bool" where
  "led_on v = (\<not> bit v LED_PIN)"

fun indicator :: "event list \<Rightarrow> bool list" where
  "indicator [] = []"
| "indicator (OutB v # es) = led_on v # indicator es"
| "indicator (e # es) = indicator es"

fun delays_ms :: "event list \<Rightarrow> nat list" where
  "delays_ms [] = []"
| "delays_ms (DelayMs n # es) = n # delays_ms es"
| "delays_ms (e # es) = delays_ms es"

text \<open>
  The events of the reporting loop, started with the value \<open>p\<close> in the register of port B:
  sixteen times a write to the port and a delay of 250 ms.
\<close>

definition report_events :: "bool \<Rightarrow> u8 \<Rightarrow> event list" where
  "report_events ok p =
    concat (map (\<lambda>i. [OutB (if ok then clear_pin LED_PIN p
                            else if even i then p XOR push_bit LED_PIN 1 else p),
                      DelayMs 250]) [0..<16])"

text \<open>
  The board after reset on which the push button is held down at the first input read
  and released afterwards, with SDO high at every read.
\<close>

definition pressed_once_board :: hw where
  "pressed_once_board = high_board\<lparr>PINB_in := (\<lambda>n. if n = 0 then 0 else 2)\<rparr>"

text \<open>
  The board after reset with an ATtiny24 whose fuse bytes all read \<^verbatim>\<open>0xFF\<close>: SDO carries
  the signature bytes \<^verbatim>\<open>0x1E\<close>, \<^verbatim>\<open>0x91\<close>, \<^verbatim>\<open>0x1E\<close>, \<^verbatim>\<open>0x91\<close>, \<^verbatim>\<open>0x0B\<close> during the last transfer
  of the five signature reads of the scan (input reads 24 to 31, 56 to 63, 88 to 95, 120
  to 127 and 152 to 159) and is high at every other read.
\<close>

definition tiny24_sdo :: "nat \<Rightarrow> u8" where
  "tiny24_sdo n =
    (if n \<in> {24, 25, 26, 31, 57, 58, 60, 61, 62, 88, 89, 90, 95, 121, 122, 124, 125, 126,
              152, 153, 154, 155, 157}
     then 0 else 4)"

definition tiny24_board :: hw where
  "tiny24_board = bench tiny24_sdo"

text \<open>
  The state after \<open>n\<close> passes through the main loop, started in state \<open>s\<close>, that find the
  push button released: each pass switches the indicator off and reads the button.
\<close>

definition idle_state :: "nat \<Rightarrow> hw \<Rightarrow> hw" where
  "idle_state n s =
    (if n = 0 then s
     else s\<lparr>PORTB := set_pin LED_PIN (PORTB s), reads := reads s + n,
            trace := trace s @
              concat (map (\<lambda>i. [OutB (set_pin LED_PIN (PORTB s)), InB (PINB_in s (reads s + i))])
                [0..<n])\<rparr>)"

text \<open>
  The board after reset with the working ATtiny13 of \<open>tiny13_board\<close>, on which the push
  button is held down at the first input read, which is the read of the button, and
  released afterwards; the target sees the first input read of the attempt one read
  later than on \<open>tiny13_board\<close>.
\<close>

definition tiny13_pressed_board :: hw where
  "tiny13_pressed_board =
    (bench (\<lambda>n. tiny13_sdo (n - 1)))\<lparr>PINB_in := (\<lambda>n. if n = 0 then 0 else 2)\<rparr>"

section \<open>Properties\<close>

lemmas pin_defs =
  HVSP_SDI_def HVSP_SII_def HVSP_SDO_def HVSP_SCI_def HVSP_VCC_def HVSP_RST_def
  LED_PIN_def SWITCH_PIN_def

lemma pin_facts:
  "HVSP_SDI < 8" "HVSP_SII < 8" "HVSP_SDO < 8" "HVSP_SCI < 8" "HVSP_VCC < 8" "HVSP_RST < 8"
  "HVSP_SDI \<noteq> HVSP_SII" "HVSP_SDI \<noteq> HVSP_SCI" "HVSP_SII \<noteq> HVSP_SCI"
  "HVSP_SII \<noteq> HVSP_SDI" "HVSP_SCI \<noteq> HVSP_SDI" "HVSP_SCI \<noteq> HVSP_SII"
  by (simp_all add: pin_defs)

lemma bit_drive:
  "bit (drive p a b c) n =
    (if n = HVSP_SDI then a else if n = HVSP_SII then b else if n = HVSP_SCI then c
     else bit p n)"
  unfolding drive_def
  by (auto simp add: bit_simps pin_facts dest: bit_imp_le_length)

lemma mask_test: "n < 8 \<Longrightarrow> ((w::u8) AND push_bit n 1 \<noteq> 0) = bit w n"
  by (simp add: and_exp_eq_0_iff_not_bit)

lemma msb_test: "((w::u8) AND 0x80 \<noteq> 0) = bit w 7"
  using mask_test [of 7 w] by simp

lemma sdo_test: "((w::u8) AND push_bit HVSP_SDO 1 \<noteq> 0) = bit w HVSP_SDO"
  by (rule mask_test) (rule pin_facts)

lemma drive_drive: "drive (drive p a b c) a' b' c' = drive p a' b' c'"
  by (rule bit_eqI) (simp add: bit_drive)

lemma or_sdi: "p OR push_bit HVSP_SDI 1 = drive p True (bit p HVSP_SII) (bit p HVSP_SCI)"
  by (rule bit_eqI) (auto simp add: bit_drive bit_simps pin_facts)

lemma clr_sdi:
  "p AND NOT (push_bit HVSP_SDI 1) = drive p False (bit p HVSP_SII) (bit p HVSP_SCI)"
  by (rule bit_eqI) (auto simp add: bit_drive bit_simps pin_facts)

lemma or_sii: "p OR push_bit HVSP_SII 1 = drive p (bit p HVSP_SDI) True (bit p HVSP_SCI)"
  by (rule bit_eqI) (auto simp add: bit_drive bit_simps pin_facts)

lemma clr_sii:
  "p AND NOT (push_bit HVSP_SII 1) = drive p (bit p HVSP_SDI) False (bit p HVSP_SCI)"
  by (rule bit_eqI) (auto simp add: bit_drive bit_simps pin_facts)

lemma or_sci: "p OR push_bit HVSP_SCI 1 = drive p (bit p HVSP_SDI) (bit p HVSP_SII) True"
  by (rule bit_eqI) (auto simp add: bit_drive bit_simps pin_facts)

lemma clr_sci:
  "p AND NOT (push_bit HVSP_SCI 1) = drive p (bit p HVSP_SDI) (bit p HVSP_SII) False"
  by (rule bit_eqI) (auto simp add: bit_drive bit_simps pin_facts)

lemma clk_drive: "clk (drive p a b c) a' b' = clk p a' b'"
  by (simp add: clk_def drive_drive)

lemma clockit_eq:
  "clockit s =
    s\<lparr>PORTC := drive (PORTC s) (bit (PORTC s) HVSP_SDI) (bit (PORTC s) HVSP_SII) False,
      trace := trace s @ clk (PORTC s) (bit (PORTC s) HVSP_SDI) (bit (PORTC s) HVSP_SII)\<rparr>"
  by (simp add: clockit_def PORTC_set_bit_def PORTC_clear_bit_def set_PORTC_def delay_us_def
      or_sci clr_sci bit_drive drive_drive pin_facts clk_def del: push_bit_of_1)

lemma put_sdi:
  "(if c then PORTC_set_bit HVSP_SDI s else PORTC_clear_bit HVSP_SDI s) =
     set_PORTC (drive (PORTC s) c (bit (PORTC s) HVSP_SII) (bit (PORTC s) HVSP_SCI)) s"
  by (simp add: PORTC_set_bit_def PORTC_clear_bit_def or_sdi clr_sdi del: push_bit_of_1)

lemma put_sii:
  "(if c then PORTC_set_bit HVSP_SII s else PORTC_clear_bit HVSP_SII s) =
     set_PORTC (drive (PORTC s) (bit (PORTC s) HVSP_SDI) c (bit (PORTC s) HVSP_SCI)) s"
  by (simp add: PORTC_set_bit_def PORTC_clear_bit_def or_sii clr_sii del: push_bit_of_1)

lemma bit_shl:
  "bit (shl w) 7 = bit w 6" "bit (shl w) 6 = bit w 5" "bit (shl w) 5 = bit w 4"
  "bit (shl w) 4 = bit w 3" "bit (shl w) 3 = bit w 2" "bit (shl w) 2 = bit w 1"
  "bit (shl w) (Suc 0) = bit w 0"
  unfolding shl_def bit_push_bit_iff by simp_all

lemma Suc_numerals:
  "Suc (Suc (Suc n)) = n + 3" "Suc (n + 3) = n + 4" "Suc (n + 4) = n + 5"
  "Suc (n + 5) = n + 6" "Suc (n + 6) = n + 7" "Suc (n + 7) = n + 8"
  by simp_all

lemma transfer_bit_eq:
  "transfer_bit (d, i, r, s) =
    (shl d, shl i, shift_in r (PINC_in s (reads s)),
     s\<lparr>PORTC := drive (PORTC s) (bit d 7) (bit i 7) False, reads := reads s + 1,
       trace := trace s @ cycle (PORTC s) (bit d 7) (bit i 7) (PINC_in s (reads s))\<rparr>)"
  by (simp add: transfer_bit_def read_PINC_def clockit_eq put_sdi put_sii Let_def shl_def
      shift_in_def set_PORTC_def msb_test sdo_test bit_drive drive_drive pin_facts
      cycle_def clk_def del: push_bit_of_1)

lemma transfer_loop_8:
  "transfer_loop 0 c =
    transfer_bit (transfer_bit (transfer_bit (transfer_bit
      (transfer_bit (transfer_bit (transfer_bit (transfer_bit c)))))))"
  by (subst transfer_loop.simps, simp)+

lemma transfer_loop_eq:
  "(case transfer_loop 0 (d, i, 0, s) of (d', i', r, s') \<Rightarrow> (r, s')) =
     (rx_byte (PINC_in s) (reads s),
      s\<lparr>PORTC := drive (PORTC s) (bit d 0) (bit i 0) False, reads := reads s + 8,
        trace := trace s
     @ cycle (PORTC s) (bit d 7) (bit i 7) (PINC_in s (reads s))
     @ cycle (drive (PORTC s) (bit d 7) (bit i 7) False) (bit d 6) (bit i 6)
         (PINC_in s (reads s + 1))
     @ cycle (drive (PORTC s) (bit d 6) (bit i 6) False) (bit d 5) (bit i 5)
         (PINC_in s (reads s + 2))
     @ cycle (drive (PORTC s) (bit d 5) (bit i 5) False) (bit d 4) (bit i 4)
         (PINC_in s (reads s + 3))
     @ cycle (drive (PORTC s) (bit d 4) (bit i 4) False) (bit d 3) (bit i 3)
         (PINC_in s (reads s + 4))
     @ cycle (drive (PORTC s) (bit d 3) (bit i 3) False) (bit d 2) (bit i 2)
         (PINC_in s (reads s + 5))
     @ cycle (drive (PORTC s) (bit d 2) (bit i 2) False) (bit d 1) (bit i 1)
         (PINC_in s (reads s + 6))
     @ cycle (drive (PORTC s) (bit d 1) (bit i 1) False) (bit d 0) (bit i 0)
         (PINC_in s (reads s + 7))\<rparr>)"
  by (simp add: transfer_loop_8 transfer_bit_eq drive_drive rx_byte_def bit_shl Suc_numerals)

lemma transferByte_eq:
  "transferByte d i s =
     (rx_byte (PINC_in s) (reads s),
      s\<lparr>PORTC := drive (PORTC s) False False False, reads := reads s + 8,
        trace := trace s @ xfer_events (PORTC s) d i (PINC_in s) (reads s)\<rparr>)"
proof -
  define s1 where "s1 = clockit (PORTC_clear_bit HVSP_SII (PORTC_clear_bit HVSP_SDI s))"
  have s1: "s1 = s\<lparr>PORTC := drive (PORTC s) False False False,
     trace := trace s @
       [OutC (drive (PORTC s) False (bit (PORTC s) HVSP_SII) (bit (PORTC s) HVSP_SCI)),
        OutC (drive (PORTC s) False False (bit (PORTC s) HVSP_SCI))]
       @ clk (PORTC s) False False\<rparr>"
    by (simp add: s1_def clk_drive clockit_eq PORTC_clear_bit_def clr_sdi clr_sii
        set_PORTC_def bit_drive drive_drive pin_facts del: push_bit_of_1)
  have tail: "clockit (clockit (PORTC_clear_bit HVSP_SII (PORTC_clear_bit HVSP_SDI s2))) =
     s2\<lparr>PORTC := drive (PORTC s2) False False False,
     trace := trace s2 @
       [OutC (drive (PORTC s2) False (bit (PORTC s2) HVSP_SII) (bit (PORTC s2) HVSP_SCI)),
        OutC (drive (PORTC s2) False False (bit (PORTC s2) HVSP_SCI))]
       @ clk (PORTC s2) False False @ clk (PORTC s2) False False\<rparr>" for s2
    by (simp add: clockit_eq PORTC_clear_bit_def clr_sdi clr_sii set_PORTC_def bit_drive
        drive_drive pin_facts clk_drive del: push_bit_of_1)
  have "transferByte d i s =
      (case transfer_loop 0 (d, i, 0, s1) of (d', i', r, s2) \<Rightarrow>
        (r, clockit (clockit (PORTC_clear_bit HVSP_SII (PORTC_clear_bit HVSP_SDI s2)))))"
    by (simp add: transferByte_def s1_def Let_def)
  also have "\<dots> =
      (case (case transfer_loop 0 (d, i, 0, s1) of (d', i', r, s2) \<Rightarrow> (r, s2)) of
         (r, s2) \<Rightarrow>
           (r, clockit (clockit (PORTC_clear_bit HVSP_SII (PORTC_clear_bit HVSP_SDI s2)))))"
    by (simp split: prod.splits)
  finally show ?thesis
    unfolding transfer_loop_eq tail
    by (simp add: s1 xfer_events_def bit_drive drive_drive pin_facts clk_drive)
qed

subsection \<open>What the bus shows during one transfer\<close>

lemma bus_view_append:
  "bus_view p (xs @ ys) = bus_view p xs @ bus_view (port_after p xs) ys"
  by (induction p xs rule: bus_view.induct) simp_all

lemma port_after_append: "port_after p (xs @ ys) = port_after (port_after p xs) ys"
  by (induction p xs rule: port_after.induct) simp_all

lemma bus_view_clk:
  "\<not> bit p HVSP_SCI \<Longrightarrow> bus_view p (clk q a b @ es) = Pulse a b # bus_view (drive q a b False) es"
  by (simp add: clk_def bit_drive pin_facts)

lemma bus_view_cycle:
  "\<not> bit p HVSP_SCI \<Longrightarrow> bus_view p (cycle p a b v @ es) 
     = Sample (bit p HVSP_SDI) (bit p HVSP_SII) (bit v HVSP_SDO) # Pulse a b # bus_view (drive p a b False) es"
  by (simp add: cycle_def clk_def bit_drive pin_facts)

lemma bus_view_xfer:
  assumes "\<not> bit p HVSP_SCI"
  shows "bus_view p (xfer_events p d i f t @ es) =
    [Pulse False False,
     Sample False False (bit (f t) HVSP_SDO), Pulse (bit d 7) (bit i 7),
     Sample (bit d 7) (bit i 7) (bit (f (t + 1)) HVSP_SDO), Pulse (bit d 6) (bit i 6),
     Sample (bit d 6) (bit i 6) (bit (f (t + 2)) HVSP_SDO), Pulse (bit d 5) (bit i 5),
     Sample (bit d 5) (bit i 5) (bit (f (t + 3)) HVSP_SDO), Pulse (bit d 4) (bit i 4),
     Sample (bit d 4) (bit i 4) (bit (f (t + 4)) HVSP_SDO), Pulse (bit d 3) (bit i 3),
     Sample (bit d 3) (bit i 3) (bit (f (t + 5)) HVSP_SDO), Pulse (bit d 2) (bit i 2),
     Sample (bit d 2) (bit i 2) (bit (f (t + 6)) HVSP_SDO), Pulse (bit d 1) (bit i 1),
     Sample (bit d 1) (bit i 1) (bit (f (t + 7)) HVSP_SDO), Pulse (bit d 0) (bit i 0),
     Pulse False False, Pulse False False] @ bus_view (drive p False False False) es"
  using assms
  by (simp add: xfer_events_def bus_view_clk bus_view_cycle bit_drive pin_facts drive_drive cycle_def clk_def)
lemma upt_8: "[0..<8] = [0, 1, 2, 3, 4, 5, 6, 7]"
  by code_simp

lemma emitted_append [simp]: "emitted s (s\<lparr>trace := trace s @ es\<rparr>) = es"
  by (simp add: emitted_def)

lemma bit_push_bit_1: "bit (push_bit 1 (r::u8)) n = (0 < n \<and> n < 8 \<and> bit r (n - 1))"
  unfolding bit_push_bit_iff by (cases n) (auto dest: bit_imp_le_length)

lemma bit_shift_in:
  "bit (shift_in r v) n = (if n = 0 then bit v HVSP_SDO else n < 8 \<and> bit r (n - 1))"
  unfolding shift_in_def if_distrib [of "\<lambda>w. bit w n"] bit_or_iff bit_push_bit_1 bit_1_iff
  by auto

lemma less_8_cases: "k < 8 \<Longrightarrow> k = 0 \<or> k = 1 \<or> k = 2 \<or> k = 3 \<or> k = 4 \<or> k = 5 \<or> k = 6 \<or> k = (7::nat)"
  by arith

lemma bit_rx_byte: "k < 8 \<Longrightarrow> bit (rx_byte f t) (7 - k) = bit (f (t + k)) HVSP_SDO"
  by (drule less_8_cases) (auto simp add: rx_byte_def bit_shift_in)

text \<open>
  Claim C1. Started with the clock line low, \<open>transferByte\<close> produces exactly eleven clock
  pulses for every data and instruction byte: one with SDI and SII low, eight that carry
  the bits of \<open>data\<close> on SDI and of \<open>instruction\<close> on SII, most significant bit first,
  and two more with both lines low. Before each of the eight data pulses the input is
  sampled while the output lines still hold the levels of the previous pulse, that is
  before the new bits are driven, and the \<open>k\<close>-th sample becomes bit \<open>7 - k\<close> of the
  byte returned.
\<close>

theorem transferByte_frame:
  "\<not> bit (PORTC s) HVSP_SCI \<Longrightarrow>
     bus_view (PORTC s) (emitted s (snd (transferByte data instruction s))) =
       Pulse False False #
       concat (map (\<lambda>k. [Sample (0 < k \<and> bit data (8 - k)) (0 < k \<and> bit instruction (8 - k))
                            (sdo_high s (reads s + k)),
                          Pulse (bit data (7 - k)) (bit instruction (7 - k))]) [0..<8])
       @ [Pulse False False, Pulse False False]
     \<and> length (filter is_Pulse
         (bus_view (PORTC s) (emitted s (snd (transferByte data instruction s))))) = 11
     \<and> (\<forall>k<8. bit (fst (transferByte data instruction s)) (7 - k) = sdo_high s (reads s + k))"
  using bus_view_xfer [of "PORTC s" data instruction "PINC_in s" "reads s" "[]"]
  by (simp add: transferByte_eq emitted_def upt_8 sdo_high_def bit_rx_byte)

theorem transferByte_frame_witness:
  "\<not> bit (PORTC (bench (\<lambda>n. 4))) HVSP_SCI \<and>
   bus_view (PORTC (bench (\<lambda>n. 4)))
     (emitted (bench (\<lambda>n. 4)) (snd (transferByte 0xA5 0x4C (bench (\<lambda>n. 4))))) =
     [Pulse False False,
      Sample False False True, Pulse True False,
      Sample True False True, Pulse False True,
      Sample False True True, Pulse True False,
      Sample True False True, Pulse False False,
      Sample False False True, Pulse False True,
      Sample False True True, Pulse True True,
      Sample True True True, Pulse False False,
      Sample False False True, Pulse True False,
      Pulse False False, Pulse False False]"
proof -
  have h: "\<not> bit (PORTC (bench (\<lambda>n. 4))) HVSP_SCI"
    by (simp add: bench_def)
  show ?thesis
    using h transferByte_frame [OF h, of "0xA5" "0x4C"]
    by (simp add: upt_8 sdo_high_def bench_def HVSP_SDO_def)
qed

lemma shift_in_eq: "shift_in r v = push_bit 1 r OR of_bool (bit v HVSP_SDO)"
  by (simp add: shift_in_def)

lemma byte_of_rx:
  "byte_of [bit (f t) HVSP_SDO, bit (f (t + 1)) HVSP_SDO, bit (f (t + 2)) HVSP_SDO,
     bit (f (t + 3)) HVSP_SDO, bit (f (t + 4)) HVSP_SDO, bit (f (t + 5)) HVSP_SDO,
     bit (f (t + 6)) HVSP_SDO, bit (f (t + 7)) HVSP_SDO] = rx_byte f t"
  unfolding byte_of_def rx_byte_def shift_in_eq by simp

lemma bit_shift_bool:
  "bit (push_bit 1 (w::u8) OR of_bool b) n = (if n = 0 then b else n < 8 \<and> bit w (n - 1))"
  unfolding bit_or_iff bit_push_bit_1 bit_of_bool_iff by auto

lemma byte_of_bits:
  "byte_of [bit d 7, bit d 6, bit d 5, bit d 4, bit d 3, bit d 2, bit d 1, bit d 0] = d"
proof (rule bit_eqI)
  fix n
  assume "possible_bit TYPE(u8) n"
  then have "n < 8" by (simp add: possible_bit_def)
  then show "bit (byte_of [bit d 7, bit d 6, bit d 5, bit d 4, bit d 3, bit d 2, bit d 1,
      bit d 0]) n = bit d n"
    unfolding byte_of_def foldl.simps bit_shift_bool
    by (drule_tac less_8_cases) auto
qed

lemma decode_frame:
  "decode Idle
    ([Pulse False False,
      Sample a0 b0 r0, Pulse d7 i7, Sample a1 b1 r1, Pulse d6 i6,
      Sample a2 b2 r2, Pulse d5 i5, Sample a3 b3 r3, Pulse d4 i4,
      Sample a4 b4 r4, Pulse d3 i3, Sample a5 b5 r5, Pulse d2 i2,
      Sample a6 b6 r6, Pulse d1 i1, Sample a7 b7 r7, Pulse d0 i0,
      Pulse False False, Pulse False False] @ es) =
   Xfer (byte_of [d7, d6, d5, d4, d3, d2, d1, d0]) (byte_of [i7, i6, i5, i4, i3, i2, i1, i0])
     (byte_of [r0, r1, r2, r3, r4, r5, r6, r7]) # decode Idle es"
  by simp

lemma not_sci_drive [simp]: "\<not> bit (drive p a b False) HVSP_SCI"
  by (simp add: bit_drive pin_facts)

lemma items_xfer:
  "\<not> bit p HVSP_SCI \<Longrightarrow>
    decode Idle (bus_view p (xfer_events p d i f t @ es)) =
      Xfer d i (rx_byte f t) # decode Idle (bus_view (drive p False False False) es)"
  unfolding bus_view_xfer append_Cons append_Nil
  using decode_frame [where es = "bus_view (drive p False False False) es"]
    byte_of_bits [of d] byte_of_bits [of i] byte_of_rx [of f t]
  by simp

lemma items_xfers:
  "\<not> bit p HVSP_SCI \<Longrightarrow>
    decode Idle (bus_view p (xfers p ds f t @ es)) =
      frames ds f t @ decode Idle (bus_view (if ds = [] then p else drive p False False False) es)"
proof (induction ds arbitrary: p t)
  case Nil
  then show ?case by simp
next
  case (Cons x ds)
  obtain d i where x: "x = (d, i)" by (cases x)
  show ?case
    using Cons.prems Cons.IH [of "drive p False False False" "t + 8"]
    by (simp add: x items_xfer drive_drive)
qed

lemma transferByte_eq':
  "transferByte d i s =
     (rx_byte (PINC_in s) (reads s),
      s\<lparr>PORTC := drive (PORTC s) False False False, reads := reads s + 8,
        trace := trace s @ xfers (PORTC s) [(d, i)] (PINC_in s) (reads s)\<rparr>)"
  by (simp add: transferByte_eq)

lemma getSignature_eq:
  "getSignature c s =
     (rx_byte (PINC_in s) (reads s + 24),
      s\<lparr>PORTC := drive (PORTC s) False False False, reads := reads s + 32,
        trace := trace s @
          xfers (PORTC s) [(0x08, 0x4C), (c, 0x0C), (0, 0x68), (0, 0x6C)] (PINC_in s) (reads s)\<rparr>)"
  by (simp add: getSignature_def transferByte_eq drive_drive add.assoc)

lemma readFuseLowBits_eq:
  "readFuseLowBits s =
     (rx_byte (PINC_in s) (reads s + 16),
      s\<lparr>PORTC := drive (PORTC s) False False False, reads := reads s + 24,
        trace := trace s @
          xfers (PORTC s) [(0x04, 0x4C), (0, 0x68), (0, 0x6C)] (PINC_in s) (reads s)\<rparr>)"
  by (simp add: readFuseLowBits_def transferByte_eq drive_drive add.assoc)

lemma readFuseHighBits_eq:
  "readFuseHighBits s =
     (rx_byte (PINC_in s) (reads s + 16),
      s\<lparr>PORTC := drive (PORTC s) False False False, reads := reads s + 24,
        trace := trace s @
          xfers (PORTC s) [(0x04, 0x4C), (0, 0x7A), (0, 0x7E)] (PINC_in s) (reads s)\<rparr>)"
  by (simp add: readFuseHighBits_def transferByte_eq drive_drive add.assoc)

lemma readFuseExtendedBits_eq:
  "readFuseExtendedBits s =
     (rx_byte (PINC_in s) (reads s + 16),
      s\<lparr>PORTC := drive (PORTC s) False False False, reads := reads s + 24,
        trace := trace s @
          xfers (PORTC s) [(0x04, 0x4C), (0, 0x6A), (0, 0x6E)] (PINC_in s) (reads s)\<rparr>)"
  by (simp add: readFuseExtendedBits_def transferByte_eq drive_drive add.assoc)

subsection \<open>The completion poll\<close>

lemma pollSDO_high:
  "bit (PINC_in s (reads s)) HVSP_SDO \<Longrightarrow>
    pollSDO s = Some (s\<lparr>reads := reads s + 1, trace := trace s @ [InC (PINC_in s (reads s))]\<rparr>)"
  using sdo_test [of "PINC_in s (reads s)"]
  by (subst pollSDO.simps) (auto simp add: read_PINC_def simp del: push_bit_of_1)

lemma pollSDO_low:
  "\<not> bit (PINC_in s (reads s)) HVSP_SDO \<Longrightarrow>
    pollSDO s =
      pollSDO (s\<lparr>reads := reads s + 1, trace := trace s @ [InC (PINC_in s (reads s))]\<rparr>)"
  using sdo_test [of "PINC_in s (reads s)"]
  by (subst pollSDO.simps) (auto simp add: read_PINC_def simp del: push_bit_of_1)

lemma poll_events_step:
  "t \<le> k \<Longrightarrow> poll_events f t k = InC (f t) # (if t = k then [] else poll_events f (Suc t) k)"
  by (auto simp add: poll_events_def upt_conv_Cons)

lemma pollSDO_Some:
  "poll_ends (PINC_in s) (reads s) k \<Longrightarrow>
    pollSDO s =
      Some (s\<lparr>reads := Suc k, trace := trace s @ poll_events (PINC_in s) (reads s) k\<rparr>)"
proof (induction "k - reads s" arbitrary: s)
  case 0
  then have "k = reads s" and "bit (PINC_in s (reads s)) HVSP_SDO"
    by (auto simp add: poll_ends_def)
  then show ?case
    by (simp add: pollSDO_high poll_events_def)
next
  case (Suc n)
  let ?s = "s\<lparr>reads := reads s + 1, trace := trace s @ [InC (PINC_in s (reads s))]\<rparr>"
  from Suc.hyps(2) Suc.prems have low: "\<not> bit (PINC_in s (reads s)) HVSP_SDO" and lt: "reads s < k"
    by (auto simp add: poll_ends_def)
  have "n = k - reads ?s" using Suc.hyps(2) by simp
  moreover have "poll_ends (PINC_in ?s) (reads ?s) k"
    using Suc.prems lt by (auto simp add: poll_ends_def)
  ultimately have "pollSDO ?s =
      Some (?s\<lparr>reads := Suc k, trace := trace ?s @ poll_events (PINC_in ?s) (reads ?s) k\<rparr>)"
    by (rule Suc.hyps(1))
  then show ?case
    using lt by (simp add: pollSDO_low [OF low] poll_events_step [of "reads s" k])
qed

lemma sdo_test_0: "(0 = (w::u8) AND push_bit HVSP_SDO 1) = (\<not> bit w HVSP_SDO)"
  using sdo_test [of w] by (auto simp del: push_bit_of_1)

lemma pollSDO_reads:
  "pollSDO s = Some s' \<Longrightarrow> \<exists>k\<ge>reads s. bit (PINC_in s k) HVSP_SDO"
proof (rule pollSDO.raw_induct [where P = "\<lambda>s s'. \<exists>k\<ge>reads s. bit (PINC_in s k) HVSP_SDO"])
  fix poll s sa
  assume IH: "\<And>x y. poll x = Some y \<Longrightarrow> \<exists>k\<ge>reads x. bit (PINC_in x k) HVSP_SDO"
    and eq: "(case read_PINC s of
      (pins, s') \<Rightarrow> if 0 = pins AND push_bit HVSP_SDO 1 then poll s' else Some s') = Some sa"
  show "\<exists>k\<ge>reads s. bit (PINC_in s k) HVSP_SDO"
  proof (cases "bit (PINC_in s (reads s)) HVSP_SDO")
    case True
    then show ?thesis by blast
  next
    case False
    let ?s = "s\<lparr>reads := reads s + 1, trace := trace s @ [InC (PINC_in s (reads s))]\<rparr>"
    from eq have "poll ?s = Some sa"
      unfolding read_PINC_def prod.case sdo_test_0 using False by simp
    from IH [OF this] obtain k where "reads ?s \<le> k" "bit (PINC_in ?s k) HVSP_SDO" by blast
    then show ?thesis by (intro exI [of _ k]) simp
  qed
qed

lemma poll_ends_ex:
  assumes "t \<le> k" "bit (f k) HVSP_SDO"
  shows "\<exists>k'. poll_ends f t k' \<and> k' \<le> k"
proof -
  define P where "P = (\<lambda>j. t \<le> j \<and> bit (f j) HVSP_SDO)"
  define m where "m = Least P"
  have Pk: "P k" using assms by (simp add: P_def)
  have 1: "P m" unfolding m_def using Pk by (rule LeastI)
  have 2: "m \<le> k" unfolding m_def using Pk by (rule Least_le)
  have 3: "\<not> P j" if "j < m" for j using that unfolding m_def by (rule not_less_Least)
  have "poll_ends f t m"
    unfolding poll_ends_def using 1 3 by (auto simp add: P_def)
  with 2 show ?thesis by blast
qed

lemma pollSDO_None_iff:
  "pollSDO s = None \<longleftrightarrow> (\<forall>k\<ge>reads s. \<not> bit (PINC_in s k) HVSP_SDO)"
proof
  assume "pollSDO s = None"
  show "\<forall>k\<ge>reads s. \<not> bit (PINC_in s k) HVSP_SDO"
  proof (intro allI impI notI)
    fix k assume "reads s \<le> k" "bit (PINC_in s k) HVSP_SDO"
    then obtain k' where "poll_ends (PINC_in s) (reads s) k'"
      using poll_ends_ex by blast
    from pollSDO_Some [OF this] \<open>pollSDO s = None\<close> show False by simp
  qed
next
  assume "\<forall>k\<ge>reads s. \<not> bit (PINC_in s k) HVSP_SDO"
  then show "pollSDO s = None"
    using pollSDO_reads [of s] by (cases "pollSDO s") auto
qed

subsection \<open>Commands on the bus\<close>

lemma parse4_Poll [simp]: "parse4 (Poll b # xs) = None"
  by (cases "(Poll b # xs)" rule: parse4.cases) auto

lemma parse3_Poll [simp]: "parse3 (Poll b # xs) = None"
  by (cases "(Poll b # xs)" rule: parse3.cases) auto

lemma parse4_other: "d \<noteq> 0x08 \<Longrightarrow> d \<noteq> 0x40 \<Longrightarrow> parse4 (Xfer d i r # xs) = None"
proof (cases "(Xfer d i r # xs)" rule: parse4.cases)
  case (1 a b c d' xs')
  assume "d \<noteq> 0x08" "d \<noteq> 0x40"
  with 1 show ?thesis by (cases "(a, b, c, d')" rule: command4.cases) auto
qed auto

lemma parse3_other: "d \<noteq> 0x04 \<Longrightarrow> parse3 (Xfer d i r # xs) = None"
proof (cases "(Xfer d i r # xs)" rule: parse3.cases)
  case (1 a b c xs')
  assume "d \<noteq> 0x04"
  with 1 show ?thesis by (cases "(a, b, c)" rule: command3.cases) auto
qed auto

lemma commands_Poll: "commands (Poll b # xs) = (if b then Ready else Busy) # commands xs"
  by (simp add: commands.simps(2))

lemma commands_polls:
  "commands (replicate n (Poll False) @ Poll True # xs) = replicate n Busy @ Ready # commands xs"
  by (induction n) (simp_all add: commands_Poll)

lemma commands_LoadNop: "commands (Xfer 0 0x4C r # xs) = LoadNop # commands xs"
  by (simp add: commands.simps(2) parse4_other parse3_other)

lemma commands_ReadSignature:
  "commands (Xfer 0x08 0x4C r1 # Xfer k 0x0C r2 # Xfer 0 0x68 r3 # Xfer 0 0x6C r # xs) =
     ReadSignature k r # commands xs"
  by (simp add: commands.simps(2))

lemma commands_WriteFuse:
  "commands (Xfer 0x40 0x4C r1 # Xfer v 0x2C r2 # Xfer 0 0x64 r3 # Xfer 0 0x6C r # xs) =
     WriteFuse Low v # commands xs"
  "commands (Xfer 0x40 0x4C r1 # Xfer v 0x2C r2 # Xfer 0 0x74 r3 # Xfer 0 0x7C r # xs) =
     WriteFuse High v # commands xs"
  "commands (Xfer 0x40 0x4C r1 # Xfer v 0x2C r2 # Xfer 0 0x66 r3 # Xfer 0 0x6E r # xs) =
     WriteFuse Extended v # commands xs"
  by (simp_all add: commands.simps(2))

lemma commands_ReadFuse:
  "commands (Xfer 0x04 0x4C r1 # Xfer 0 0x68 r2 # Xfer 0 0x6C r # xs) =
     ReadFuse Low r # commands xs"
  "commands (Xfer 0x04 0x4C r1 # Xfer 0 0x7A r2 # Xfer 0 0x7E r # xs) =
     ReadFuse High r # commands xs"
  "commands (Xfer 0x04 0x4C r1 # Xfer 0 0x6A r2 # Xfer 0 0x6E r # xs) =
     ReadFuse Extended r # commands xs"
  by (simp_all add: commands.simps(2) parse4_other)

lemma items_polls:
  "poll_ends f t k \<Longrightarrow>
    decode Idle (bus_view p (poll_events f t k @ es)) =
      replicate (k - t) (Poll False) @ Poll True # decode Idle (bus_view p es)"
proof (induction "k - t" arbitrary: t)
  case 0
  then have "t = k" "bit (f k) HVSP_SDO" by (auto simp add: poll_ends_def)
  then show ?case by (simp add: poll_events_def)
next
  case (Suc n)
  then have lt: "t < k" and low: "\<not> bit (f t) HVSP_SDO" and nxt: "poll_ends f (Suc t) k"
    by (auto simp add: poll_ends_def)
  have "n = k - Suc t" using Suc.hyps(2) by simp
  from Suc.hyps(1) [OF this nxt] lt low show ?case
    by (simp add: poll_events_step [of t k] Suc_diff_Suc replicate_Suc [symmetric] del: replicate_Suc)
qed

subsection \<open>The fuse-write routines\<close>

lemma write_seq_eqs:
  "writeFuseLowBits = write_seq 0x64 0x6C"
  "writeFuseHighBits = write_seq 0x74 0x7C"
  "writeFuseExtendedBits = write_seq 0x66 0x6E"
  by (intro ext, simp add: writeFuseLowBits_def writeFuseHighBits_def
      writeFuseExtendedBits_def write_seq_def)+

lemma write_seq_first_poll:
  "write_seq i3 i4 v s =
    (case pollSDO (s\<lparr>PORTC := drive (PORTC s) False False False, reads := reads s + 32,
            trace := trace s @
              xfers (PORTC s) [(0x40, 0x4C), (v, 0x2C), (0, i3), (0, i4)] (PINC_in s) (reads s)\<rparr>) of
       None \<Rightarrow> None
     | Some s \<Rightarrow> (let (_, s) = transferByte 0x00 0x4C s in pollSDO s))"
  by (simp add: write_seq_def transferByte_eq drive_drive add.assoc)

lemma write_seq_None1:
  "\<forall>k\<ge>reads s + 32. \<not> sdo_high s k \<Longrightarrow> write_seq i3 i4 v s = None"
  unfolding write_seq_first_poll
  by (simp add: pollSDO_None_iff [THEN iffD2] sdo_high_def)

lemma write_seq_second_poll:
  assumes "poll_ends (PINC_in s) (reads s + 32) k1"
  shows "write_seq i3 i4 v s =
    pollSDO (s\<lparr>PORTC := drive (PORTC s) False False False, reads := k1 + 9,
            trace := trace s @
              xfers (PORTC s) [(0x40, 0x4C), (v, 0x2C), (0, i3), (0, i4)] (PINC_in s) (reads s)
              @ poll_events (PINC_in s) (reads s + 32) k1
              @ xfers (drive (PORTC s) False False False) [(0, 0x4C)] (PINC_in s) (Suc k1)\<rparr>)"
  unfolding write_seq_first_poll
  using assms
  by (subst pollSDO_Some [where k = k1]) (simp_all add: transferByte_eq drive_drive add.commute)

lemma write_seq_None2:
  "poll_ends (PINC_in s) (reads s + 32) k1 \<Longrightarrow> \<forall>k\<ge>k1 + 9. \<not> sdo_high s k \<Longrightarrow>
     write_seq i3 i4 v s = None"
  by (simp add: write_seq_second_poll pollSDO_None_iff [THEN iffD2] sdo_high_def)

lemma write_seq_Some:
  assumes "poll_ends (PINC_in s) (reads s + 32) k1" "poll_ends (PINC_in s) (k1 + 9) k2"
  shows "write_seq i3 i4 v s =
    Some (s\<lparr>PORTC := drive (PORTC s) False False False, reads := Suc k2,
            trace := trace s @
              xfers (PORTC s) [(0x40, 0x4C), (v, 0x2C), (0, i3), (0, i4)] (PINC_in s) (reads s)
              @ poll_events (PINC_in s) (reads s + 32) k1
              @ xfers (drive (PORTC s) False False False) [(0, 0x4C)] (PINC_in s) (Suc k1)
              @ poll_events (PINC_in s) (k1 + 9) k2\<rparr>)"
  unfolding write_seq_second_poll [OF assms(1)]
  using assms(2)
  by (subst pollSDO_Some [where k = k2]) simp_all

lemma emitted_update [simp]:
  "emitted s (s\<lparr>PORTC := a, reads := b, trace := trace s @ es\<rparr>) = es"
  by (simp add: emitted_def)

lemma write_seq_items:
  assumes "\<not> bit (PORTC s) HVSP_SCI"
    and "poll_ends (PINC_in s) (reads s + 32) k1" "poll_ends (PINC_in s) (k1 + 9) k2"
  shows "\<exists>s'. write_seq i3 i4 v s = Some s' \<and> reads s' = Suc k2 \<and>
    decode Idle (bus_view (PORTC s) (emitted s s')) =
      frames [(0x40, 0x4C), (v, 0x2C), (0, i3), (0, i4)] (PINC_in s) (reads s)
      @ replicate (k1 - (reads s + 32)) (Poll False) @ Poll True
      # frames [(0, 0x4C)] (PINC_in s) (Suc k1)
      @ replicate (k2 - (k1 + 9)) (Poll False) @ [Poll True]"
  unfolding write_seq_Some [OF assms(2,3)]
  using items_polls [OF assms(3), of "drive (PORTC s) False False False" "[]"]
  by (simp add: items_xfers [OF assms(1)] items_polls [OF assms(2)] items_xfers [OF not_sci_drive]
      drive_drive del: xfers.simps frames.simps)

lemma write_seq_commands:
  assumes "\<not> bit (PORTC s) HVSP_SCI"
    and "poll_ends (PINC_in s) (reads s + 32) k1" "poll_ends (PINC_in s) (k1 + 9) k2"
    and "(i3, i4, x) \<in> {(0x64, 0x6C, Low), (0x74, 0x7C, High), (0x66, 0x6E, Extended)}"
  shows "\<exists>s'. write_seq i3 i4 v s = Some s' \<and> reads s' = Suc k2 \<and>
    commands_of s s' =
      WriteFuse x v # replicate (k1 - (reads s + 32)) Busy @ [Ready, LoadNop]
        @ replicate (k2 - (k1 + 9)) Busy @ [Ready]"
proof -
  from write_seq_items [OF assms(1,2,3), of i3 i4 v] obtain s' where
    s': "write_seq i3 i4 v s = Some s'" "reads s' = Suc k2"
    "decode Idle (bus_view (PORTC s) (emitted s s')) =
      frames [(0x40, 0x4C), (v, 0x2C), (0, i3), (0, i4)] (PINC_in s) (reads s)
      @ replicate (k1 - (reads s + 32)) (Poll False) @ Poll True
      # frames [(0, 0x4C)] (PINC_in s) (Suc k1)
      @ replicate (k2 - (k1 + 9)) (Poll False) @ [Poll True]"
    by blast
  have "commands_of s s' =
      WriteFuse x v # replicate (k1 - (reads s + 32)) Busy @ [Ready, LoadNop]
        @ replicate (k2 - (k1 + 9)) Busy @ [Ready]"
    unfolding commands_of_def s'(3) using assms(4)
    by (auto simp add: commands_WriteFuse commands_polls commands_LoadNop)
  with s'(1,2) show ?thesis by blast
qed

lemma polled_write_seq:
  assumes "\<not> bit (PORTC s) HVSP_SCI"
    and "(i3, i4, x) \<in> {(0x64, 0x6C, Low), (0x74, 0x7C, High), (0x66, 0x6E, Extended)}"
  shows "polled_write (write_seq i3 i4 v) (WriteFuse x v) s"
  unfolding polled_write_def
  using write_seq_None1 [of s i3 i4 v] write_seq_None2 [of s _ i3 i4 v]
    write_seq_commands [OF assms(1) _ _ assms(2), of _ _ v]
  by blast

text \<open>
  Claim C6. Each of the three fuse-write routines performs its four transfers, polls SDO
  until it reads high, issues the load-no-operation transfer and polls again. The polls
  have no bound: if SDO stays low from the start of the first poll on, or from the start
  of the second poll on, the routine never returns; if each poll finds SDO high, the
  routine returns, and the bus has seen the write command, the samples of the first
  poll, the load-no-operation frame and the samples of the second poll.
\<close>

theorem write_fuse_polling:
  "\<not> bit (PORTC s) HVSP_SCI \<Longrightarrow>
     polled_write (writeFuseLowBits v) (WriteFuse Low v) s \<and>
     polled_write (writeFuseHighBits v) (WriteFuse High v) s \<and>
     polled_write (writeFuseExtendedBits v) (WriteFuse Extended v) s"
  unfolding write_seq_eqs by (simp add: polled_write_seq)

theorem write_fuse_polling_witness:
  "\<not> bit (PORTC (bench (\<lambda>n. 4))) HVSP_SCI \<and>
   (\<exists>s'. writeFuseLowBits 0x6A (bench (\<lambda>n. 4)) = Some s' \<and>
      commands_of (bench (\<lambda>n. 4)) s' = [WriteFuse Low 0x6A, Ready, LoadNop, Ready]) \<and>
   \<not> bit (PORTC (bench (\<lambda>n. 0))) HVSP_SCI \<and>
   writeFuseHighBits 0xFF (bench (\<lambda>n. 0)) = None"
proof -
  have h: "\<not> bit (PORTC (bench (\<lambda>n. 4))) HVSP_SCI"
    by (simp add: bench_def)
  have p1: "poll_ends (PINC_in (bench (\<lambda>n. 4))) (reads (bench (\<lambda>n. 4)) + 32) 32"
    by (simp add: poll_ends_def bench_def HVSP_SDO_def)
  have p2: "poll_ends (PINC_in (bench (\<lambda>n. 4))) (32 + 9) 41"
    by (simp add: poll_ends_def bench_def HVSP_SDO_def)
  from write_fuse_polling [OF h, of "0x6A"]
  have "polled_write (writeFuseLowBits 0x6A) (WriteFuse Low 0x6A) (bench (\<lambda>n. 4))"
    by simp
  with p1 p2 have
    "\<exists>s'. writeFuseLowBits 0x6A (bench (\<lambda>n. 4)) = Some s' \<and> reads s' = Suc 41 \<and>
      commands_of (bench (\<lambda>n. 4)) s' =
        WriteFuse Low 0x6A # replicate (32 - (reads (bench (\<lambda>n. 4)) + 32)) Busy
          @ [Ready, LoadNop] @ replicate (41 - (32 + 9)) Busy @ [Ready]"
    unfolding polled_write_def by blast
  then have a: "\<exists>s'. writeFuseLowBits 0x6A (bench (\<lambda>n. 4)) = Some s' \<and>
      commands_of (bench (\<lambda>n. 4)) s' = [WriteFuse Low 0x6A, Ready, LoadNop, Ready]"
    by (auto simp add: bench_def)
  have h0: "\<not> bit (PORTC (bench (\<lambda>n. 0))) HVSP_SCI"
    by (simp add: bench_def)
  have low: "\<forall>k\<ge>reads (bench (\<lambda>n. 0)) + 32. \<not> sdo_high (bench (\<lambda>n. 0)) k"
    by (simp add: sdo_high_def bench_def)
  from write_fuse_polling [OF h0, of "0xFF"]
  have "polled_write (writeFuseHighBits 0xFF) (WriteFuse High 0xFF) (bench (\<lambda>n. 0))"
    by simp
  with low have b: "writeFuseHighBits 0xFF (bench (\<lambda>n. 0)) = None"
    unfolding polled_write_def by blast
  from h a h0 b show ?thesis by blast
qed

subsection \<open>Runs on the serial bus\<close>

lemma commands_of_items: "commands_of s s' = commands (items_of s s')"
  by (simp add: commands_of_def items_of_def)

lemma serial_only_append [simp]:
  "serial_only p (xs @ ys) \<longleftrightarrow> serial_only p xs \<and> serial_only p ys"
  by (auto simp add: serial_only_def)

lemma serial_only_drive [simp]: "serial_only (drive p a b c) es = serial_only p es"
  by (simp add: serial_only_def drive_drive)

lemma drive_self: "drive p (bit p HVSP_SDI) (bit p HVSP_SII) (bit p HVSP_SCI) = p"
  by (rule bit_eqI) (simp add: bit_drive)

lemma serial_only_port_after:
  "serial_only p es \<Longrightarrow> \<exists>a b c. port_after p es = drive p a b c"
proof (induction es arbitrary: p)
  case Nil
  show ?case using drive_self [of p, symmetric] by auto
next
  case (Cons e es)
  from Cons.prems have rest: "serial_only p es"
    by (simp add: serial_only_def)
  from Cons.prems consider v where "e = InC v" | "e = DelayUs 1"
    | a b c where "e = OutC (drive p a b c)"
    by (auto simp add: serial_only_def)
  then show ?case
  proof cases
    case 3
    from rest have "serial_only (drive p a b c) es" by simp
    from Cons.IH [OF this] show ?thesis
      by (auto simp add: 3 drive_drive)
  qed (use Cons.IH [OF rest] in auto)
qed

lemma seg_refl: "\<not> bit (PORTC s) HVSP_SCI \<Longrightarrow> seg s s"
  by (simp add: seg_def emitted_def items_of_def commands_of_def serial_only_def)

lemma seg_emitted:
  assumes "seg s s1" "seg s1 s2"
  shows "emitted s s2 = emitted s s1 @ emitted s1 s2"
proof -
  define e1 where "e1 = emitted s s1"
  define e2 where "e2 = emitted s1 s2"
  have "trace s1 = trace s @ e1" "trace s2 = trace s1 @ e2"
    using assms by (simp_all add: seg_def e1_def e2_def)
  then have "trace s2 = trace s @ e1 @ e2" by simp
  then have "emitted s s2 = e1 @ e2"
    by (simp add: emitted_def [of s s2])
  then show ?thesis by (simp add: e1_def e2_def)
qed

lemma seg_items:
  assumes "seg s s1" "seg s1 s2"
  shows "items_of s s2 = items_of s s1 @ items_of s1 s2"
  using assms unfolding seg_emitted [OF assms] items_of_def [of s s2]
  by (simp add: seg_def items_of_def)

lemma seg_commands:
  assumes "seg s s1" "seg s1 s2"
  shows "commands_of s s2 = commands_of s s1 @ commands_of s1 s2"
  using assms unfolding commands_of_items [of s s2] seg_items [OF assms]
  by (simp add: seg_def commands_of_items)

lemma seg_trans:
  assumes "seg s s1" "seg s1 s2"
  shows "seg s s2"
proof -
  from assms(1) have so1: "serial_only (PORTC s) (emitted s s1)"
    and pa1: "port_after (PORTC s) (emitted s s1) = PORTC s1"
    by (simp_all add: seg_def)
  from serial_only_port_after [OF so1] pa1 obtain a b c
    where p1: "PORTC s1 = drive (PORTC s) a b c" by auto
  from assms(2) have so2: "serial_only (PORTC s) (emitted s1 s2)"
    by (simp add: seg_def p1)
  have tr: "trace s2 = trace s @ emitted s s2"
    using assms by (simp add: seg_emitted [OF assms] seg_def)
  have dec: "decode Idle (bus_view (PORTC s) (emitted s s2 @ es)) =
       items_of s s2 @ decode Idle (bus_view (PORTC s2) es)" for es
    using assms unfolding seg_emitted [OF assms] seg_items [OF assms]
    by (simp add: seg_def)
  have com: "commands (items_of s s2 @ ys) = commands_of s s2 @ commands ys" for ys
    using assms unfolding seg_commands [OF assms] seg_items [OF assms]
    by (simp add: seg_def)
  show ?thesis
    unfolding seg_def
    using assms tr so1 so2 dec com
    by (simp add: seg_emitted [OF assms] port_after_append seg_def)
qed

lemma serial_OutC [simp]: "\<exists>a b c. drive p a' b' c' = drive p a b c"
  by blast

lemma serial_only_xfer [simp]: "serial_only p (xfer_events p d i f t)"
  by (simp add: serial_only_def xfer_events_def cycle_def clk_def drive_drive)

lemma serial_only_xfers [simp]: "serial_only p (xfers p ds f t)"
proof (induction ds arbitrary: p t)
  case Nil
  show ?case by (simp add: serial_only_def)
next
  case (Cons x ds)
  obtain d i where x: "x = (d, i)" by (cases x)
  from Cons [of "drive p False False False" "t + 8"] show ?case
    by (simp add: x)
qed

lemma serial_only_polls [simp]: "serial_only p (poll_events f t k)"
  by (auto simp add: serial_only_def poll_events_def)

lemma port_after_xfer [simp]:
  "port_after p (xfer_events p d i f t) = drive p False False False"
  by (simp add: xfer_events_def cycle_def clk_def)

lemma port_after_xfers [simp]:
  "port_after p (xfers p ds f t) = (if ds = [] then p else drive p False False False)"
proof (induction ds arbitrary: p t)
  case Nil
  show ?case by simp
next
  case (Cons x ds)
  obtain d i where x: "x = (d, i)" by (cases x)
  from Cons [of "drive p False False False" "t + 8"] show ?case
    by (simp add: x port_after_append drive_drive)
qed

lemma port_after_InC: "port_after p (map (\<lambda>j. InC (g j)) xs) = p"
  by (induction xs) simp_all

lemma port_after_polls [simp]: "port_after p (poll_events f t k) = p"
  unfolding poll_events_def by (rule port_after_InC)

text \<open>A run that consists of a sequence of transfers.\<close>

lemma seg_xfers:
  assumes "\<not> bit (PORTC s) HVSP_SCI" "ds \<noteq> []"
    and "s' = s\<lparr>PORTC := drive (PORTC s) False False False, reads := reads s + n,
           trace := trace s @ xfers (PORTC s) ds (PINC_in s) (reads s)\<rparr>"
    and "\<And>ys. commands (frames ds (PINC_in s) (reads s) @ ys) = cs @ commands ys"
  shows "seg s s' \<and> commands_of s s' = cs"
proof -
  have em: "emitted s s' = xfers (PORTC s) ds (PINC_in s) (reads s)"
    by (simp add: assms(3))
  have it: "items_of s s' = frames ds (PINC_in s) (reads s)"
    using items_xfers [OF assms(1), of ds "PINC_in s" "reads s" "[]"]
    by (simp add: items_of_def em)
  have co: "commands_of s s' = cs"
    using assms(4) [of "[]"] by (simp add: commands_of_items it)
  have "seg s s'"
    unfolding seg_def em it co
    using assms(2) by (simp add: assms(3,4) items_xfers [OF assms(1)])
  with co show ?thesis by simp
qed

lemma getSignature_seg:
  assumes "\<not> bit (PORTC s) HVSP_SCI"
  shows "seg s (snd (getSignature k s)) \<and>
    commands_of s (snd (getSignature k s)) = [ReadSignature k (fst (getSignature k s))]"
  by (rule seg_xfers [OF assms, where ds = "[(0x08, 0x4C), (k, 0x0C), (0, 0x68), (0, 0x6C)]"
        and n = 32])
     (simp_all add: getSignature_eq commands_ReadSignature add.assoc)

lemma readFuseLowBits_seg:
  assumes "\<not> bit (PORTC s) HVSP_SCI"
  shows "seg s (snd (readFuseLowBits s)) \<and>
    commands_of s (snd (readFuseLowBits s)) = [ReadFuse Low (fst (readFuseLowBits s))]"
  by (rule seg_xfers [OF assms, where ds = "[(0x04, 0x4C), (0, 0x68), (0, 0x6C)]" and n = 24])
     (simp_all add: readFuseLowBits_eq commands_ReadFuse add.assoc)

lemma readFuseHighBits_seg:
  assumes "\<not> bit (PORTC s) HVSP_SCI"
  shows "seg s (snd (readFuseHighBits s)) \<and>
    commands_of s (snd (readFuseHighBits s)) = [ReadFuse High (fst (readFuseHighBits s))]"
  by (rule seg_xfers [OF assms, where ds = "[(0x04, 0x4C), (0, 0x7A), (0, 0x7E)]" and n = 24])
     (simp_all add: readFuseHighBits_eq commands_ReadFuse add.assoc)

lemma readFuseExtendedBits_seg:
  assumes "\<not> bit (PORTC s) HVSP_SCI"
  shows "seg s (snd (readFuseExtendedBits s)) \<and>
    commands_of s (snd (readFuseExtendedBits s)) =
      [ReadFuse Extended (fst (readFuseExtendedBits s))]"
  by (rule seg_xfers [OF assms, where ds = "[(0x04, 0x4C), (0, 0x6A), (0, 0x6E)]" and n = 24])
     (simp_all add: readFuseExtendedBits_eq commands_ReadFuse add.assoc)

lemma seg_responsive: "seg s s' \<Longrightarrow> responsive s' = responsive s"
  by (simp add: seg_def responsive_def sdo_high_def)

lemma write_seq_seg:
  assumes "\<not> bit (PORTC s) HVSP_SCI"
    and "poll_ends (PINC_in s) (reads s + 32) k1" "poll_ends (PINC_in s) (k1 + 9) k2"
    and "(i3, i4, x) \<in> {(0x64, 0x6C, Low), (0x74, 0x7C, High), (0x66, 0x6E, Extended)}"
  shows "\<exists>s'. write_seq i3 i4 v s = Some s' \<and> seg s s' \<and>
    commands_of s s' =
      WriteFuse x v # replicate (k1 - (reads s + 32)) Busy @ [Ready, LoadNop]
        @ replicate (k2 - (k1 + 9)) Busy @ [Ready]"
proof -
  define p where "p = PORTC s"
  define f where "f = PINC_in s"
  define q where "q = drive p False False False"
  define E where "E = xfers p [(0x40, 0x4C), (v, 0x2C), (0, i3), (0, i4)] f (reads s)
              @ poll_events f (reads s + 32) k1 @ xfers q [(0, 0x4C)] f (Suc k1)
              @ poll_events f (k1 + 9) k2"
  define I where "I = frames [(0x40, 0x4C), (v, 0x2C), (0, i3), (0, i4)] f (reads s)
      @ replicate (k1 - (reads s + 32)) (Poll False) @ Poll True
      # frames [(0, 0x4C)] f (Suc k1) @ replicate (k2 - (k1 + 9)) (Poll False) @ [Poll True]"
  define C where "C = WriteFuse x v # replicate (k1 - (reads s + 32)) Busy @ [Ready, LoadNop]
        @ replicate (k2 - (k1 + 9)) Busy @ [Ready]"
  define s' where "s' = s\<lparr>PORTC := q, reads := Suc k2, trace := trace s @ E\<rparr>"
  have run: "write_seq i3 i4 v s = Some s'"
    unfolding write_seq_Some [OF assms(2,3)] s'_def E_def q_def p_def f_def by simp
  have em: "emitted s s' = E"
    by (simp add: s'_def)
  have nq: "\<not> bit q HVSP_SCI" by (simp add: q_def)
  have dec: "decode Idle (bus_view p (E @ es)) = I @ decode Idle (bus_view q es)" for es
    unfolding E_def I_def append_assoc
    using assms(1,2,3)
    by (simp add: items_xfers items_polls p_def f_def q_def drive_drive
        del: xfers.simps frames.simps)
  have it: "items_of s s' = I"
    using dec [of "[]"] by (simp add: items_of_def em p_def)
  have com: "commands (I @ ys) = C @ commands ys" for ys
    unfolding I_def C_def using assms(4)
    by (auto simp add: commands_WriteFuse commands_polls commands_LoadNop)
  have co: "commands_of s s' = C"
    using com [of "[]"] by (simp add: commands_of_items it)
  have "serial_only q (xfers q [(0, 0x4C)] f (Suc k1))"
    by (rule serial_only_xfers)
  then have "serial_only p (xfers q [(0, 0x4C)] f (Suc k1))"
    unfolding q_def by (simp only: serial_only_drive)
  then have so: "serial_only p E"
    unfolding E_def by (simp del: xfers.simps)
  have pa: "port_after p E = q"
    unfolding E_def by (simp add: port_after_append q_def drive_drive del: xfers.simps)
  have le: "reads s \<le> Suc k2"
    using assms(2,3) by (simp add: poll_ends_def)
  have "seg s s'"
    unfolding seg_def em it co
    using so pa nq dec com le by (simp add: s'_def p_def)
  with run co show ?thesis
    unfolding C_def by blast
qed

lemma write_seq_responsive:
  assumes "\<not> bit (PORTC s) HVSP_SCI" "responsive s"
    and "(i3, i4, x) \<in> {(0x64, 0x6C, Low), (0x74, 0x7C, High), (0x66, 0x6E, Extended)}"
  shows "\<exists>s' n1 n2. write_seq i3 i4 v s = Some s' \<and> seg s s' \<and>
    commands_of s s' = WriteFuse x v # replicate n1 Busy @ [Ready, LoadNop]
        @ replicate n2 Busy @ [Ready]"
proof -
  from assms(2) obtain j1 where "reads s + 32 \<le> j1" "bit (PINC_in s j1) HVSP_SDO"
    unfolding responsive_def sdo_high_def by blast
  then obtain k1 where k1: "poll_ends (PINC_in s) (reads s + 32) k1"
    using poll_ends_ex by blast
  from assms(2) obtain j2 where "k1 + 9 \<le> j2" "bit (PINC_in s j2) HVSP_SDO"
    unfolding responsive_def sdo_high_def by blast
  then obtain k2 where k2: "poll_ends (PINC_in s) (k1 + 9) k2"
    using poll_ends_ex by blast
  from write_seq_seg [OF assms(1) k1 k2 assms(3), of v] show ?thesis by blast
qed

subsection \<open>Filtering commands\<close>

lemma fuse_writes_append [simp]: "fuse_writes (xs @ ys) = fuse_writes xs @ fuse_writes ys"
  by (induction xs rule: fuse_writes.induct) simp_all

lemma fuse_reads_append [simp]: "fuse_reads (xs @ ys) = fuse_reads xs @ fuse_reads ys"
  by (induction xs rule: fuse_reads.induct) simp_all

lemma signature_reads_append [simp]:
  "signature_reads (xs @ ys) = signature_reads xs @ signature_reads ys"
  by (induction xs rule: signature_reads.induct) simp_all

lemma filters_Busy [simp]:
  "fuse_writes (replicate n Busy) = []" "fuse_reads (replicate n Busy) = []"
  "signature_reads (replicate n Busy) = []"
  by (induction n) simp_all

subsection \<open>Verification\<close>

lemma seg_clock: "seg s s' \<Longrightarrow> \<not> bit (PORTC s') HVSP_SCI"
  by (simp add: seg_def)

lemma verify_seg:
  assumes "\<not> bit (PORTC s) HVSP_SCI"
  shows "\<exists>l h e. seg s (snd (verify fl fh fe s)) \<and>
    commands_of s (snd (verify fl fh fe s)) =
      (if l \<noteq> fl then [ReadFuse Low l]
       else if h \<noteq> fh then [ReadFuse Low fl, ReadFuse High h]
       else if fe = 0 then [ReadFuse Low fl, ReadFuse High fh]
       else [ReadFuse Low fl, ReadFuse High fh, ReadFuse Extended e]) \<and>
    (fst (verify fl fh fe s) \<longleftrightarrow> l = fl \<and> h = fh \<and> (fe = 0 \<or> e = fe))"
proof -
  define l where "l = fst (readFuseLowBits s)"
  define s1 where "s1 = snd (readFuseLowBits s)"
  define h where "h = fst (readFuseHighBits s1)"
  define s2 where "s2 = snd (readFuseHighBits s1)"
  define e where "e = fst (readFuseExtendedBits s2)"
  define s3 where "s3 = snd (readFuseExtendedBits s2)"
  have v: "verify fl fh fe s =
      (if fl = l then (if fh = h then (if 0 = fe then (True, s2) else (fe = e, s3))
         else (False, s2)) else (False, s1))"
    by (simp add: verify_def split_def Let_def l_def s1_def h_def s2_def e_def s3_def)
  have 1: "seg s s1" "commands_of s s1 = [ReadFuse Low l]"
    using readFuseLowBits_seg [OF assms] by (simp_all add: l_def s1_def)
  have 2: "seg s1 s2" "commands_of s1 s2 = [ReadFuse High h]"
    using readFuseHighBits_seg [OF seg_clock [OF 1(1)]] by (simp_all add: h_def s2_def)
  have 3: "seg s2 s3" "commands_of s2 s3 = [ReadFuse Extended e]"
    using readFuseExtendedBits_seg [OF seg_clock [OF 2(1)]] by (simp_all add: e_def s3_def)
  have 12: "seg s s2" "commands_of s s2 = [ReadFuse Low l, ReadFuse High h]"
    using seg_trans [OF 1(1) 2(1)] seg_commands [OF 1(1) 2(1)] by (simp_all add: 1 2)
  have 123: "seg s s3"
    "commands_of s s3 = [ReadFuse Low l, ReadFuse High h, ReadFuse Extended e]"
    using seg_trans [OF 12(1) 3(1)] seg_commands [OF 12(1) 3(1)] by (simp_all add: 12 3)
  show ?thesis
    by (intro exI [of _ l] exI [of _ h] exI [of _ e]) (auto simp add: v 1 12 123)
qed

lemma rx_byte_high [simp]: "rx_byte (\<lambda>n. 4) t = 0xFF"
  by (simp add: rx_byte_def shift_in_def HVSP_SDO_def)

lemma high_board_simps [simp]:
  "PORTC high_board = 0" "PINC_in high_board = (\<lambda>n. 4)" "reads high_board = 0"
  "trace high_board = []" "responsive high_board"
  by (auto simp add: high_board_def bench_def responsive_def sdo_high_def HVSP_SDO_def)

subsection \<open>Restoring the fuses of one record\<close>

lemma restore_and_verify_seg:
  assumes "\<not> bit (PORTC s) HVSP_SCI" "responsive s"
  shows "\<exists>ok s' l h e. restore_and_verify device s = Some (ok, s') \<and> seg s s' \<and>
    signature_reads (commands_of s s') = [] \<and>
    fuse_writes (commands_of s s') = default_fuses device \<and>
    fuse_reads (commands_of s s') =
      (if l \<noteq> fuseLowBits (targetCpu ! device) then [(Low, l)]
       else if h \<noteq> fuseHighBits (targetCpu ! device)
         then [(Low, fuseLowBits (targetCpu ! device)), (High, h)]
       else if fuseExtendedBits (targetCpu ! device) = 0
         then [(Low, fuseLowBits (targetCpu ! device)), (High, fuseHighBits (targetCpu ! device))]
       else [(Low, fuseLowBits (targetCpu ! device)), (High, fuseHighBits (targetCpu ! device)),
             (Extended, e)]) \<and>
    (ok \<longleftrightarrow> l = fuseLowBits (targetCpu ! device) \<and> h = fuseHighBits (targetCpu ! device) \<and>
       (fuseExtendedBits (targetCpu ! device) = 0 \<or> e = fuseExtendedBits (targetCpu ! device)))"
proof -
  define fl where "fl = fuseLowBits (targetCpu ! device)"
  define fh where "fh = fuseHighBits (targetCpu ! device)"
  define fe where "fe = fuseExtendedBits (targetCpu ! device)"
  from write_seq_responsive [OF assms, of "0x64" "0x6C" Low fl]
  obtain s1 n1 n2 where 1: "writeFuseLowBits fl s = Some s1" "seg s s1"
    "commands_of s s1 = WriteFuse Low fl # replicate n1 Busy @ [Ready, LoadNop]
        @ replicate n2 Busy @ [Ready]"
    unfolding write_seq_eqs by auto
  have r1: "responsive s1" using seg_responsive [OF 1(2)] assms(2) by simp
  from write_seq_responsive [OF seg_clock [OF 1(2)] r1, of "0x74" "0x7C" High fh]
  obtain s2 m1 m2 where 2: "writeFuseHighBits fh s1 = Some s2" "seg s1 s2"
    "commands_of s1 s2 = WriteFuse High fh # replicate m1 Busy @ [Ready, LoadNop]
        @ replicate m2 Busy @ [Ready]"
    unfolding write_seq_eqs by auto
  have r2: "responsive s2" using seg_responsive [OF 2(2)] r1 by simp
  have "\<exists>s3. (if fe \<noteq> 0 then writeFuseExtendedBits fe s2 else Some s2) = Some s3 \<and> seg s2 s3 \<and>
      signature_reads (commands_of s2 s3) = [] \<and> fuse_reads (commands_of s2 s3) = [] \<and>
      fuse_writes (commands_of s2 s3) = (if fe \<noteq> 0 then [(Extended, fe)] else [])"
  proof (cases "fe = 0")
    case True
    then show ?thesis
      using seg_refl [OF seg_clock [OF 2(2)]] by (simp add: commands_of_def emitted_def)
  next
    case False
    from write_seq_responsive [OF seg_clock [OF 2(2)] r2, of "0x66" "0x6E" Extended fe]
    obtain s3 j1 j2 where "writeFuseExtendedBits fe s2 = Some s3" "seg s2 s3"
      "commands_of s2 s3 = WriteFuse Extended fe # replicate j1 Busy @ [Ready, LoadNop]
        @ replicate j2 Busy @ [Ready]"
      unfolding write_seq_eqs by auto
    with False show ?thesis by simp
  qed
  then obtain s3 where 3: "(if fe \<noteq> 0 then writeFuseExtendedBits fe s2 else Some s2) = Some s3"
    "seg s2 s3" "signature_reads (commands_of s2 s3) = []" "fuse_reads (commands_of s2 s3) = []"
    "fuse_writes (commands_of s2 s3) = (if fe \<noteq> 0 then [(Extended, fe)] else [])"
    by blast
  define s4 where "s4 = snd (verify fl fh fe s3)"
  define ok where "ok = fst (verify fl fh fe s3)"
  from verify_seg [OF seg_clock [OF 3(2)], of fl fh fe]
  obtain l h e where 4: "seg s3 s4"
    "commands_of s3 s4 =
      (if l \<noteq> fl then [ReadFuse Low l]
       else if h \<noteq> fh then [ReadFuse Low fl, ReadFuse High h]
       else if fe = 0 then [ReadFuse Low fl, ReadFuse High fh]
       else [ReadFuse Low fl, ReadFuse High fh, ReadFuse Extended e])"
    "ok \<longleftrightarrow> l = fl \<and> h = fh \<and> (fe = 0 \<or> e = fe)"
    unfolding s4_def ok_def by blast
  have run: "restore_and_verify device s = Some (ok, s4)"
    using 1(1) 2(1) 3(1)
    by (simp add: restore_and_verify_def fl_def [symmetric] fh_def [symmetric]
        fe_def [symmetric] ok_def s4_def)
  have 12: "seg s s2" "commands_of s s2 = commands_of s s1 @ commands_of s1 s2"
    using seg_trans [OF 1(2) 2(2)] seg_commands [OF 1(2) 2(2)] by simp_all
  have 123: "seg s s3" "commands_of s s3 = commands_of s s2 @ commands_of s2 s3"
    using seg_trans [OF 12(1) 3(2)] seg_commands [OF 12(1) 3(2)] by simp_all
  have all: "seg s s4" "commands_of s s4 = commands_of s s3 @ commands_of s3 s4"
    using seg_trans [OF 123(1) 4(1)] seg_commands [OF 123(1) 4(1)] by simp_all
  have w: "fuse_writes (commands_of s s4) = default_fuses device"
    unfolding all(2) 123(2) 12(2)
    by (simp add: 1(3) 2(3) 3(5) 4(2) default_fuses_def fl_def fh_def fe_def)
  have sr: "signature_reads (commands_of s s4) = []"
    unfolding all(2) 123(2) 12(2)
    by (simp add: 1(3) 2(3) 3(3) 4(2))
  have fr: "fuse_reads (commands_of s s4) =
      (if l \<noteq> fl then [(Low, l)]
       else if h \<noteq> fh then [(Low, fl), (High, h)]
       else if fe = 0 then [(Low, fl), (High, fh)]
       else [(Low, fl), (High, fh), (Extended, e)])"
    unfolding all(2) 123(2) 12(2)
    by (simp add: 1(3) 2(3) 3(4) 4(2))
  from run all(1) sr w fr 4(3) show ?thesis
    unfolding fl_def fh_def fe_def by blast
qed

lemma targetCpu_fuses [simp]:
  "length targetCpu = 8"
  "fuseLowBits (targetCpu ! 0) = 0x6A" "fuseHighBits (targetCpu ! 0) = 0xFF"
  "fuseExtendedBits (targetCpu ! 0) = 0"
  "fuseLowBits (targetCpu ! Suc 0) = 0x62" "fuseHighBits (targetCpu ! Suc 0) = 0xDF"
  "fuseExtendedBits (targetCpu ! Suc 0) = 0xFF"
  by (simp_all add: targetCpu_def)

text \<open>
  Claim C3. For every record of the table, the restore step (on a target that completes
  its polls) writes the low fuse byte and the high fuse byte of the record, in this
  order and whatever their values, and then writes the extended fuse byte if and only if
  the stored extended value is not zero; these are the only fuse writes it issues.
\<close>

theorem restore_writes_fuses:
  "device < length targetCpu \<Longrightarrow> \<not> bit (PORTC s) HVSP_SCI \<Longrightarrow> responsive s \<Longrightarrow>
    \<exists>ok s'. restore_and_verify device s = Some (ok, s') \<and>
      fuse_writes (commands_of s s') =
        [(Low, fuseLowBits (targetCpu ! device)), (High, fuseHighBits (targetCpu ! device))]
        @ (if fuseExtendedBits (targetCpu ! device) \<noteq> 0
           then [(Extended, fuseExtendedBits (targetCpu ! device))] else [])"
  using restore_and_verify_seg [of s device]
  unfolding default_fuses_def by blast

theorem restore_writes_fuses_witness:
  "0 < length targetCpu \<and> 1 < length targetCpu \<and>
   \<not> bit (PORTC high_board) HVSP_SCI \<and> responsive high_board \<and>
   (\<exists>ok s'. restore_and_verify 0 high_board = Some (ok, s') \<and>
      fuse_writes (commands_of high_board s') = [(Low, 0x6A), (High, 0xFF)]) \<and>
   (\<exists>ok s'. restore_and_verify 1 high_board = Some (ok, s') \<and>
      fuse_writes (commands_of high_board s') = [(Low, 0x62), (High, 0xDF), (Extended, 0xFF)])"
proof -
  have h: "\<not> bit (PORTC high_board) HVSP_SCI" "responsive high_board"
    by simp_all
  have l: "0 < length targetCpu" "1 < length targetCpu"
    by simp_all
  show ?thesis
    using l h restore_writes_fuses [OF l(1) h] restore_writes_fuses [OF l(2) h]
    by simp
qed

subsection \<open>The device loop\<close>

lemma restore_loop_scan:
  "restore_loop device s =
    (case scan_devices device s of
       (None, s') \<Rightarrow> Some (False, s')
     | (Some d, s') \<Rightarrow> restore_and_verify d s')"
proof (induction device s rule: scan_devices.induct)
  case (1 device s)
  show ?case
  proof (cases "device < length targetCpu \<and> signature_byte device 0 \<noteq> 0")
    case False
    then show ?thesis
      by (subst restore_loop.simps, subst scan_devices.simps) auto
  next
    case g: True
    obtain m s' where m: "signature_matches device s = (m, s')"
      by (cases "signature_matches device s")
    show ?thesis
    proof (cases m)
      case True
      with g m show ?thesis
        by (subst restore_loop.simps, subst scan_devices.simps) simp
    next
      case False
      then have "m = False" by simp
      from "1.IH" [OF g m [symmetric] this] g m False show ?thesis
        by (subst restore_loop.simps, subst scan_devices.simps) simp
    qed
  qed
qed

lemma signature_matches_seg:
  assumes "\<not> bit (PORTC s) HVSP_SCI"
  shows "\<exists>b0 b1 b2. seg s (snd (signature_matches device s)) \<and>
    commands_of s (snd (signature_matches device s)) =
      ReadSignature 0 b0 #
        (if b0 = signature_byte device 0
         then ReadSignature 1 b1 #
           (if b1 = signature_byte device 1 then [ReadSignature 2 b2] else [])
         else []) \<and>
    (fst (signature_matches device s) \<longleftrightarrow>
      b0 = signature_byte device 0 \<and> b1 = signature_byte device 1 \<and>
      b2 = signature_byte device 2)"
proof -
  define b0 where "b0 = fst (getSignature 0 s)"
  define s1 where "s1 = snd (getSignature 0 s)"
  define b1 where "b1 = fst (getSignature 1 s1)"
  define s2 where "s2 = snd (getSignature 1 s1)"
  define b2 where "b2 = fst (getSignature 2 s2)"
  define s3 where "s3 = snd (getSignature 2 s2)"
  have v: "signature_matches device s =
      (if b0 = signature_byte device 0 then
         (if b1 = signature_byte device 1 then (b2 = signature_byte device 2, s3)
          else (False, s2))
       else (False, s1))"
    by (simp add: signature_matches_def split_def Let_def b0_def s1_def b1_def s2_def b2_def
        s3_def)
  have 1: "seg s s1" "commands_of s s1 = [ReadSignature 0 b0]"
    using getSignature_seg [OF assms, of 0] by (simp_all add: b0_def s1_def)
  have 2: "seg s1 s2" "commands_of s1 s2 = [ReadSignature 1 b1]"
    using getSignature_seg [OF seg_clock [OF 1(1)], of 1] by (simp_all add: b1_def s2_def)
  have 3: "seg s2 s3" "commands_of s2 s3 = [ReadSignature 2 b2]"
    using getSignature_seg [OF seg_clock [OF 2(1)], of 2] by (simp_all add: b2_def s3_def)
  have 12: "seg s s2" "commands_of s s2 = [ReadSignature 0 b0, ReadSignature 1 b1]"
    using seg_trans [OF 1(1) 2(1)] seg_commands [OF 1(1) 2(1)] by (simp_all add: 1 2)
  have 123: "seg s s3"
    "commands_of s s3 = [ReadSignature 0 b0, ReadSignature 1 b1, ReadSignature 2 b2]"
    using seg_trans [OF 12(1) 3(1)] seg_commands [OF 12(1) 3(1)] by (simp_all add: 12 3)
  show ?thesis
    by (intro exI [of _ b0] exI [of _ b1] exI [of _ b2]) (auto simp add: v 1 12 123)
qed

lemma scan_devices_seg:
  "\<not> bit (PORTC s) HVSP_SCI \<Longrightarrow> seg s (snd (scan_devices device s))"
proof (induction device s rule: scan_devices.induct)
  case (1 device s)
  show ?case
  proof (cases "device < length targetCpu \<and> signature_byte device 0 \<noteq> 0")
    case False
    then show ?thesis
      using seg_refl [OF "1.prems"] by (subst scan_devices.simps) auto
  next
    case g: True
    obtain m s' where m: "signature_matches device s = (m, s')"
      by (cases "signature_matches device s")
    from signature_matches_seg [OF "1.prems", of device] m have s': "seg s s'"
      by auto
    show ?thesis
    proof (cases m)
      case True
      with g m s' show ?thesis
        by (subst scan_devices.simps) simp
    next
      case False
      then have "m = False" by simp
      from "1.IH" [OF g m [symmetric] this seg_clock [OF s']]
      have "seg s' (snd (scan_devices (device + 1) s'))" .
      from seg_trans [OF s' this] show ?thesis
        using g m False by (subst scan_devices.simps) simp
    qed
  qed
qed

subsection \<open>The scan against a target with a stable signature\<close>

lemma targetCpu_length_3:
  "r \<in> set targetCpu \<Longrightarrow> length (signature r) = 3"
  by (auto simp add: targetCpu_def)

lemma list3_eq:
  "length xs = 3 \<Longrightarrow> length ys = 3 \<Longrightarrow>
    xs = ys \<longleftrightarrow> xs ! 0 = ys ! 0 \<and> xs ! 1 = ys ! 1 \<and> xs ! 2 = ys ! (2::nat)"
  by (auto simp add: list_eq_iff_nth_eq less_Suc_eq numeral_3_eq_3 numeral_2_eq_2)

lemma scan_devices_step:
  assumes "\<not> bit (PORTC s) HVSP_SCI" "device < length targetCpu" "signature_byte device 0 \<noteq> 0"
    and "s' = snd (signature_matches device s)"
  shows "\<exists>b0 b1 b2. seg s s' \<and>
    commands_of s s' =
      ReadSignature 0 b0 #
        (if b0 = signature_byte device 0
         then ReadSignature 1 b1 #
           (if b1 = signature_byte device 1 then [ReadSignature 2 b2] else [])
         else []) \<and>
    (fst (signature_matches device s) \<longleftrightarrow>
       b0 = signature_byte device 0 \<and> b1 = signature_byte device 1 \<and>
       b2 = signature_byte device 2) \<and>
    (if fst (signature_matches device s)
     then scan_devices device s = (Some device, s')
     else scan_devices device s = scan_devices (device + 1) s' \<and>
       commands_of s (snd (scan_devices device s)) =
         commands_of s s' @ commands_of s' (snd (scan_devices (device + 1) s')))"
proof -
  define m where "m = fst (signature_matches device s)"
  have m: "signature_matches device s = (m, s')"
    by (simp add: m_def assms(4))
  from signature_matches_seg [OF assms(1), of device] m obtain b0 b1 b2 where
    s': "seg s s'" and
    c: "commands_of s s' =
      ReadSignature 0 b0 #
        (if b0 = signature_byte device 0
         then ReadSignature 1 b1 #
           (if b1 = signature_byte device 1 then [ReadSignature 2 b2] else [])
         else [])" and
    ok: "m \<longleftrightarrow> b0 = signature_byte device 0 \<and> b1 = signature_byte device 1 \<and>
      b2 = signature_byte device 2"
    by auto
  have step: "scan_devices device s =
      (if m then (Some device, s') else scan_devices (device + 1) s')"
    using assms(2,3) m by (subst scan_devices.simps) simp
  have rest: "commands_of s (snd (scan_devices (device + 1) s')) =
      commands_of s s' @ commands_of s' (snd (scan_devices (device + 1) s'))"
    using seg_commands [OF s' scan_devices_seg [OF seg_clock [OF s']]] .
  show ?thesis
    unfolding m_def [symmetric]
  proof (intro exI conjI)
    show "seg s s'" by fact
    show "commands_of s s' =
      ReadSignature 0 b0 #
        (if b0 = signature_byte device 0
         then ReadSignature 1 b1 #
           (if b1 = signature_byte device 1 then [ReadSignature 2 b2] else [])
         else [])" by (rule c)
    show "m \<longleftrightarrow> b0 = signature_byte device 0 \<and> b1 = signature_byte device 1 \<and>
      b2 = signature_byte device 2" by (rule ok)
    show "if m
     then scan_devices device s = (Some device, s')
     else scan_devices device s = scan_devices (device + 1) s' \<and>
       commands_of s (snd (scan_devices device s)) =
         commands_of s s' @ commands_of s' (snd (scan_devices (device + 1) s'))"
      unfolding step using rest by (cases m) simp_all
  qed
qed

lemma terminator_test:
  "r \<in> set targetCpu \<Longrightarrow> signature r = [0, 0, 0] \<longleftrightarrow> signature r ! 0 = 0"
  by (auto simp add: targetCpu_def SIGNATURE_0_def)

lemma unat_codes [simp]: "unat (2 :: u8) = 2"
  by simp

lemma scan_devices_answers:
  "\<not> bit (PORTC s) HVSP_SCI \<Longrightarrow> length sig = 3 \<Longrightarrow> signature_answers sig device s \<Longrightarrow>
    map_option (\<lambda>d. targetCpu ! d) (fst (scan_devices device s)) =
      find_device (drop device targetCpu) sig \<and>
    map fst (signature_reads (commands_of s (snd (scan_devices device s)))) =
      signature_queries (drop device targetCpu) sig"
proof (induction device s rule: scan_devices.induct)
  case (1 device s)
  show ?case
  proof (cases "device < length targetCpu")
    case False
    then show ?thesis
      using seg_refl [OF "1.prems"(1)]
      by (subst (1 2) scan_devices.simps) (simp add: commands_of_def emitted_def)
  next
    case lt: True
    define r where "r = targetCpu ! device"
    have dr: "drop device targetCpu = r # drop (device + 1) targetCpu"
      using lt by (simp add: r_def Cons_nth_drop_Suc)
    have rin: "r \<in> set targetCpu" using lt by (simp add: r_def)
    have len: "length (signature r) = 3" using rin by (rule targetCpu_length_3)
    have sb: "signature_byte device k = signature r ! k" for k
      by (simp add: signature_byte_def r_def)
    show ?thesis
    proof (cases "signature_byte device 0 = 0")
      case True
      then have "signature r = [0, 0, 0]"
        using terminator_test [OF rin] by (simp add: sb)
      with True show ?thesis
        using seg_refl [OF "1.prems"(1)]
        by (subst (1 2) scan_devices.simps) (simp add: dr commands_of_def emitted_def)
    next
      case nz: False
      then have nt: "signature r \<noteq> [0, 0, 0]" "signature r ! 0 \<noteq> 0"
        using terminator_test [OF rin] by (simp_all add: sb)
      define s' where "s' = snd (signature_matches device s)"
      define m where "m = fst (signature_matches device s)"
      from scan_devices_step [OF "1.prems"(1) lt nz s'_def] obtain b0 b1 b2 where
        s': "seg s s'" and
        c: "commands_of s s' =
          ReadSignature 0 b0 #
            (if b0 = signature r ! 0
             then ReadSignature 1 b1 # (if b1 = signature r ! 1 then [ReadSignature 2 b2] else [])
             else [])" and
        ok: "m \<longleftrightarrow> b0 = signature r ! 0 \<and> b1 = signature r ! 1 \<and> b2 = signature r ! 2" and
        step: "if m then scan_devices device s = (Some device, s')
          else scan_devices device s = scan_devices (device + 1) s' \<and>
            commands_of s (snd (scan_devices device s)) =
              commands_of s s' @ commands_of s' (snd (scan_devices (device + 1) s'))"
        unfolding sb m_def by blast
      show ?thesis
      proof (cases m)
        case True
        with step have res: "scan_devices device s = (Some device, s')" by simp
        from True ok have b: "b0 = signature r ! 0" "b1 = signature r ! 1" "b2 = signature r ! 2"
          by simp_all
        from "1.prems"(3) have "sig ! 0 = b0" "sig ! 1 = b1" "sig ! 2 = b2"
          unfolding signature_answers_def res snd_conv c using b by simp_all
        with b have e: "sig ! 0 = signature r ! 0" "sig ! 1 = signature r ! 1"
          "sig ! 2 = signature r ! 2"
          by (simp_all only:)
        then have "signature r = sig"
          unfolding list3_eq [OF len "1.prems"(2)] by (simp only:)
        note eq = this e(1,2)
        show ?thesis
          unfolding res fst_conv snd_conv dr
          using nt eq by (simp add: c b r_def)
      next
        case False
        note both = step [unfolded if_not_P [OF False]]
        from both have res: "scan_devices device s = scan_devices (device + 1) s'" ..
        from both have com: "commands_of s (snd (scan_devices device s)) =
              commands_of s s' @ commands_of s' (snd (scan_devices (device + 1) s'))" ..
        from "1.prems"(3) have a0: "\<forall>(k, r) \<in> set (signature_reads (commands_of s s')).
            k < 3 \<and> r = sig ! unat k"
          and a1: "signature_answers sig (device + 1) s'"
          unfolding signature_answers_def com by auto
        from a0 have b0: "b0 = sig ! 0"
          unfolding c by simp
        from a0 have b1: "b0 = signature r ! 0 \<Longrightarrow> b1 = sig ! 1"
          unfolding c by simp
        from a0 have b2: "b0 = signature r ! 0 \<Longrightarrow> b1 = signature r ! 1 \<Longrightarrow> b2 = sig ! 2"
          unfolding c by simp
        from False ok b0 b1 b2 have ne: "signature r \<noteq> sig"
          unfolding list3_eq [OF len "1.prems"(2)] by metis
        have "m = False" using False by simp
        from "1.IH" [OF _ _ this seg_clock [OF s'] "1.prems"(2) a1] lt nz
        have IH: "map_option ((!) targetCpu) (fst (scan_devices (device + 1) s')) =
            find_device (drop (device + 1) targetCpu) sig"
          "map fst (signature_reads (commands_of s' (snd (scan_devices (device + 1) s')))) =
            signature_queries (drop (device + 1) targetCpu) sig"
          by (simp_all add: m_def s'_def)
        have q: "map fst (signature_reads (commands_of s s')) =
            0 # (if sig ! 0 = signature r ! 0
                 then 1 # (if sig ! 1 = signature r ! 1 then [2] else []) else [])"
          unfolding c using b0 b1 by auto
        note com' = com [unfolded res]
        show ?thesis
          unfolding res dr
          using nt ne IH q com' by simp
      qed
    qed
  qed
qed

lemma getSignature_fields [simp]:
  "fst (getSignature k s) = rx_byte (PINC_in s) (reads s + 24)"
  "PINC_in (snd (getSignature k s)) = PINC_in s"
  "reads (snd (getSignature k s)) = reads s + 32"
  by (simp_all add: getSignature_eq)

lemma signature_matches_rx:
  assumes "\<not> bit (PORTC s) HVSP_SCI"
    and "b0 = rx_byte (PINC_in s) (reads s + 24)"
    and "b1 = rx_byte (PINC_in s) (reads s + 56)"
    and "b2 = rx_byte (PINC_in s) (reads s + 88)"
  shows "seg s (snd (signature_matches device s)) \<and>
    commands_of s (snd (signature_matches device s)) =
      ReadSignature 0 b0 #
        (if b0 = signature_byte device 0
         then ReadSignature 1 b1 #
           (if b1 = signature_byte device 1 then [ReadSignature 2 b2] else [])
         else []) \<and>
    (fst (signature_matches device s) \<longleftrightarrow>
      b0 = signature_byte device 0 \<and> b1 = signature_byte device 1 \<and>
      b2 = signature_byte device 2)"
proof -
  define s1 where "s1 = snd (getSignature 0 s)"
  define s2 where "s2 = snd (getSignature 1 s1)"
  define s3 where "s3 = snd (getSignature 2 s2)"
  have b: "fst (getSignature 0 s) = b0" "fst (getSignature 1 s1) = b1"
    "fst (getSignature 2 s2) = b2"
    by (simp_all add: assms s1_def s2_def add.assoc)
  have v: "signature_matches device s =
      (if b0 = signature_byte device 0 then
         (if b1 = signature_byte device 1 then (b2 = signature_byte device 2, s3)
          else (False, s2))
       else (False, s1))"
    using b by (simp add: signature_matches_def split_def Let_def s1_def s2_def s3_def)
  have 1: "seg s s1" "commands_of s s1 = [ReadSignature 0 b0]"
    using getSignature_seg [OF assms(1), of 0] b(1) by (simp_all add: s1_def)
  have 2: "seg s1 s2" "commands_of s1 s2 = [ReadSignature 1 b1]"
    using getSignature_seg [OF seg_clock [OF 1(1)], of 1] b(2) by (simp_all add: s2_def)
  have 3: "seg s2 s3" "commands_of s2 s3 = [ReadSignature 2 b2]"
    using getSignature_seg [OF seg_clock [OF 2(1)], of 2] b(3) by (simp_all add: s3_def)
  have 12: "seg s s2" "commands_of s s2 = [ReadSignature 0 b0, ReadSignature 1 b1]"
    using seg_trans [OF 1(1) 2(1)] seg_commands [OF 1(1) 2(1)] by (simp_all add: 1 2)
  have 123: "seg s s3"
    "commands_of s s3 = [ReadSignature 0 b0, ReadSignature 1 b1, ReadSignature 2 b2]"
    using seg_trans [OF 12(1) 3(1)] seg_commands [OF 12(1) 3(1)] by (simp_all add: 12 3)
  show ?thesis
    by (auto simp add: v 1 12 123)
qed

lemma scan_devices_match:
  assumes "\<not> bit (PORTC s) HVSP_SCI" "device < length targetCpu"
    and "signature_byte device 0 \<noteq> 0"
    and "rx_byte (PINC_in s) (reads s + 24) = signature_byte device 0"
    and "rx_byte (PINC_in s) (reads s + 56) = signature_byte device 1"
    and "rx_byte (PINC_in s) (reads s + 88) = signature_byte device 2"
  shows "scan_devices device s = (Some device, snd (signature_matches device s)) \<and>
    seg s (snd (signature_matches device s)) \<and>
    commands_of s (snd (signature_matches device s)) =
      [ReadSignature 0 (signature_byte device 0), ReadSignature 1 (signature_byte device 1),
       ReadSignature 2 (signature_byte device 2)]"
proof -
  from signature_matches_rx [OF assms(1) refl refl refl, of device]
  have m: "fst (signature_matches device s)" and s: "seg s (snd (signature_matches device s))"
    and c: "commands_of s (snd (signature_matches device s)) =
      [ReadSignature 0 (signature_byte device 0), ReadSignature 1 (signature_byte device 1),
       ReadSignature 2 (signature_byte device 2)]"
    unfolding assms(4,5,6) by simp_all
  have "scan_devices device s = (Some device, snd (signature_matches device s))"
    using assms(2,3) m
    by (subst scan_devices.simps) (simp add: split_def)
  with s c show ?thesis by simp
qed

lemma scan_devices_end:
  "\<not> (device < length targetCpu \<and> signature_byte device 0 \<noteq> 0) \<Longrightarrow>
    scan_devices device s = (None, s)"
  by (subst scan_devices.simps) auto

lemma commands_of_refl [simp]: "commands_of s s = []"
  by (simp add: commands_of_def emitted_def)

lemma scan_devices_reads_rx:
  "\<not> bit (PORTC s) HVSP_SCI \<Longrightarrow>
    \<forall>(k, r) \<in> set (signature_reads (commands_of s (snd (scan_devices device s)))).
      k < 3 \<and> (\<exists>t. r = rx_byte (PINC_in s) t)"
proof (induction device s rule: scan_devices.induct)
  case (1 device s)
  show ?case
  proof (cases "device < length targetCpu \<and> signature_byte device 0 \<noteq> 0")
    case False
    then show ?thesis
      by (simp add: scan_devices_end)
  next
    case g: True
    define s' where "s' = snd (signature_matches device s)"
    define m where "m = fst (signature_matches device s)"
    define b0 where "b0 = rx_byte (PINC_in s) (reads s + 24)"
    define b1 where "b1 = rx_byte (PINC_in s) (reads s + 56)"
    define b2 where "b2 = rx_byte (PINC_in s) (reads s + 88)"
    have ex: "\<exists>t. b0 = rx_byte (PINC_in s) t" "\<exists>t. b1 = rx_byte (PINC_in s) t"
      "\<exists>t. b2 = rx_byte (PINC_in s) t"
      unfolding b0_def b1_def b2_def by blast+
    note mx = signature_matches_rx [OF "1.prems" b0_def b1_def b2_def, of device,
        folded s'_def m_def]
    from mx have s': "seg s s'" by simp
    from mx have c: "commands_of s s' =
      ReadSignature 0 b0 #
        (if b0 = signature_byte device 0
         then ReadSignature 1 b1 #
           (if b1 = signature_byte device 1 then [ReadSignature 2 b2] else [])
         else [])" by simp
    have first: "\<forall>(k, r) \<in> set (signature_reads (commands_of s s')).
        k < 3 \<and> (\<exists>t. r = rx_byte (PINC_in s) t)"
      unfolding c using ex by simp
    have step: "scan_devices device s =
        (if m then (Some device, s') else scan_devices (device + 1) s')"
      using g by (subst scan_devices.simps) (simp add: split_def m_def s'_def)
    show ?thesis
    proof (cases m)
      case True
      with step first show ?thesis by simp
    next
      case False
      then have "m = False" by simp
      have "(m, s') = signature_matches device s" by (simp add: m_def s'_def)
      from "1.IH" [OF g this \<open>m = False\<close> seg_clock [OF s']]
      have rest: "\<forall>(k, r) \<in> set (signature_reads
            (commands_of s' (snd (scan_devices (device + 1) s')))).
          k < 3 \<and> (\<exists>t. r = rx_byte (PINC_in s) t)"
        using s' by (simp add: seg_def)
      have "commands_of s (snd (scan_devices (device + 1) s')) =
          commands_of s s' @ commands_of s' (snd (scan_devices (device + 1) s'))"
        using seg_commands [OF s' scan_devices_seg [OF seg_clock [OF s']]] .
      with first rest False step show ?thesis by auto
    qed
  qed
qed

lemma find_device_None:
  "\<forall>r\<in>set rs. signature r \<noteq> sig \<Longrightarrow> find_device rs sig = None"
  by (induction rs) auto

lemma live_records:
  "device < 7 \<Longrightarrow> device < length targetCpu \<and> signature_byte device 0 \<noteq> 0"
proof -
  assume "device < 7"
  then consider "device = 0" | "device = 1" | "device = 2" | "device = 3" | "device = 4"
    | "device = 5" | "device = 6" by linarith
  then show ?thesis
    by cases (simp_all add: signature_byte_def targetCpu_def SIGNATURE_0_def)
qed


lemma tiny13_rx [simp]:
  "rx_byte tiny13_sdo 24 = 0x1E" "rx_byte tiny13_sdo 56 = 0x90" "rx_byte tiny13_sdo 88 = 0x07"
  "rx_byte tiny13_sdo 196 = 0x6A" "rx_byte tiny13_sdo 220 = 0xFF"
  by (simp_all add: rx_byte_def shift_in_def tiny13_sdo_def HVSP_SDO_def)

lemma tiny13_board_simps [simp]:
  "PORTC tiny13_board = 0" "PINC_in tiny13_board = tiny13_sdo" "reads tiny13_board = 0"
  "trace tiny13_board = []"
  by (simp_all add: tiny13_board_def bench_def)

lemma tiny13_record [simp]:
  "signature_byte 0 0 = 0x1E" "signature_byte 0 1 = 0x90" "signature_byte 0 2 = 0x07"
  "targetCpu ! 0 = \<lparr>signature = [0x1E, 0x90, 0x07], fuseLowBits = 0x6A, fuseHighBits = 0xFF,
      fuseExtendedBits = 0x00\<rparr>"
  by (simp_all add: signature_byte_def targetCpu_def SIGNATURE_0_def)

lemma high_board_answers: "signature_answers [0xFF, 0xFF, 0xFF] 0 high_board"
proof -
  have h: "\<not> bit (PORTC high_board) HVSP_SCI" by simp
  have "[0xFF, 0xFF, 0xFF] ! unat k = (0xFF :: u8)" if "k < 3" for k :: u8
  proof -
    from that have "unat k < 3" by (simp add: word_less_nat_alt)
    then consider "unat k = 0" | "unat k = 1" | "unat k = 2" by linarith
    then show ?thesis by cases simp_all
  qed
  then show ?thesis
    unfolding signature_answers_def
    using scan_devices_reads_rx [OF h, of 0] by fastforce
qed

lemma tiny13_scan:
  "scan_devices 0 tiny13_board = (Some 0, snd (signature_matches 0 tiny13_board))"
  "commands_of tiny13_board (snd (signature_matches 0 tiny13_board)) =
     [ReadSignature 0 0x1E, ReadSignature 1 0x90, ReadSignature 2 0x07]"
proof -
  have l: "0 < length targetCpu" by (simp add: targetCpu_def)
  have n: "signature_byte 0 0 \<noteq> 0" by simp
  have b: "rx_byte (PINC_in tiny13_board) (reads tiny13_board + 24) = signature_byte 0 0"
    "rx_byte (PINC_in tiny13_board) (reads tiny13_board + 56) = signature_byte 0 1"
    "rx_byte (PINC_in tiny13_board) (reads tiny13_board + 88) = signature_byte 0 2"
    by (simp_all add: signature_byte_def targetCpu_def SIGNATURE_0_def)
  have c: "\<not> bit (PORTC tiny13_board) HVSP_SCI" by simp
  note r = scan_devices_match [OF c l n b]
  from r show "scan_devices 0 tiny13_board = (Some 0, snd (signature_matches 0 tiny13_board))"
    by blast
  from r show "commands_of tiny13_board (snd (signature_matches 0 tiny13_board)) =
     [ReadSignature 0 0x1E, ReadSignature 1 0x90, ReadSignature 2 0x07]"
    using tiny13_record(1,2,3) by metis
qed

lemma tiny13_board_answers: "signature_answers [0x1E, 0x90, 0x07] 0 tiny13_board"
  unfolding signature_answers_def tiny13_scan snd_conv by simp

lemma high_board_scan: "fst (scan_devices 0 high_board) = None"
proof -
  have h: "\<not> bit (PORTC high_board) HVSP_SCI" by simp
  have no: "\<forall>r\<in>set targetCpu. signature r \<noteq> [0xFF, 0xFF, 0xFF]"
    by (simp add: targetCpu_def SIGNATURE_0_def)
  from scan_devices_answers [OF h _ high_board_answers] find_device_None [OF no]
  show ?thesis by simp
qed


text \<open>
  Claim C2. Against a target with live signature \<open>sig\<close>, the device loop selects what the
  lookup of the specification selects: the first record, in table order, whose three
  signature bytes equal \<open>sig\<close>, and none if the terminator comes first. In particular it
  selects none when no record of the table has the signature \<open>sig\<close>. The loop runs the
  restore step for the selected record and otherwise ends with failure.
\<close>

theorem scan_selects_first_match:
  "\<not> bit (PORTC s) HVSP_SCI \<Longrightarrow> length sig = 3 \<Longrightarrow> signature_answers sig 0 s \<Longrightarrow>
    map_option (\<lambda>d. targetCpu ! d) (fst (scan_devices 0 s)) = find_device targetCpu sig \<and>
    ((\<forall>r\<in>set targetCpu. signature r \<noteq> sig) \<longrightarrow> fst (scan_devices 0 s) = None) \<and>
    restore_loop 0 s =
      (case fst (scan_devices 0 s) of
         None \<Rightarrow> Some (False, snd (scan_devices 0 s))
       | Some d \<Rightarrow> restore_and_verify d (snd (scan_devices 0 s)))"
proof -
  assume a: "\<not> bit (PORTC s) HVSP_SCI" "length sig = 3" "signature_answers sig 0 s"
  from scan_devices_answers [OF a]
  have f: "map_option (\<lambda>d. targetCpu ! d) (fst (scan_devices 0 s)) = find_device targetCpu sig"
    by simp
  then have n: "(\<forall>r\<in>set targetCpu. signature r \<noteq> sig) \<longrightarrow> fst (scan_devices 0 s) = None"
    using find_device_None [of targetCpu sig] by auto
  have "restore_loop 0 s =
      (case fst (scan_devices 0 s) of
         None \<Rightarrow> Some (False, snd (scan_devices 0 s))
       | Some d \<Rightarrow> restore_and_verify d (snd (scan_devices 0 s)))"
    unfolding restore_loop_scan [of 0 s]
    by (cases "scan_devices 0 s") (simp split: option.splits)
  with f n show ?thesis by blast
qed

theorem scan_selects_first_match_witness:
  "\<not> bit (PORTC tiny13_board) HVSP_SCI \<and> length [0x1E, 0x90, 0x07 :: u8] = 3 \<and>
   signature_answers [0x1E, 0x90, 0x07] 0 tiny13_board \<and>
   fst (scan_devices 0 tiny13_board) = Some 0 \<and>
   find_device targetCpu [0x1E, 0x90, 0x07] = Some (targetCpu ! 0) \<and>
   \<not> bit (PORTC high_board) HVSP_SCI \<and> length [0xFF, 0xFF, 0xFF :: u8] = 3 \<and>
   signature_answers [0xFF, 0xFF, 0xFF] 0 high_board \<and>
   [0xFF, 0xFF, 0xFF] \<notin> set (map signature targetCpu) \<and>
   fst (scan_devices 0 high_board) = None \<and>
   restore_loop 0 high_board = Some (False, snd (scan_devices 0 high_board))"
proof -
  have t: "\<not> bit (PORTC tiny13_board) HVSP_SCI" "length [0x1E, 0x90, 0x07 :: u8] = 3"
    "signature_answers [0x1E, 0x90, 0x07] 0 tiny13_board"
    by (simp_all add: tiny13_board_answers)
  have h: "\<not> bit (PORTC high_board) HVSP_SCI" "length [0xFF, 0xFF, 0xFF :: u8] = 3"
    "signature_answers [0xFF, 0xFF, 0xFF] 0 high_board"
    by (simp_all add: high_board_answers)
  have no: "\<forall>r\<in>set targetCpu. signature r \<noteq> [0xFF, 0xFF, 0xFF]"
    by (simp add: targetCpu_def SIGNATURE_0_def)
  from scan_selects_first_match [OF t]
  have 1: "find_device targetCpu [0x1E, 0x90, 0x07] = Some (targetCpu ! 0)"
    by (simp add: tiny13_scan)
  from scan_selects_first_match [OF h] no
  have 2: "fst (scan_devices 0 high_board) = None"
    "restore_loop 0 high_board = Some (False, snd (scan_devices 0 high_board))"
    by simp_all
  from no have no': "[0xFF, 0xFF, 0xFF] \<notin> set (map signature targetCpu)"
    by auto
  from t h no' 1 2 show ?thesis
    by (simp add: tiny13_scan)
qed

subsection \<open>Power-down\<close>

lemma pin_distinct:
  "HVSP_VCC \<noteq> HVSP_SDI" "HVSP_VCC \<noteq> HVSP_SII" "HVSP_VCC \<noteq> HVSP_SCI" "HVSP_VCC \<noteq> HVSP_RST"
  "HVSP_VCC \<noteq> HVSP_SDO"
  "HVSP_RST \<noteq> HVSP_SDI" "HVSP_RST \<noteq> HVSP_SII" "HVSP_RST \<noteq> HVSP_SCI" "HVSP_RST \<noteq> HVSP_VCC"
  "HVSP_RST \<noteq> HVSP_SDO"
  "HVSP_SDI \<noteq> HVSP_VCC" "HVSP_SII \<noteq> HVSP_VCC" "HVSP_SCI \<noteq> HVSP_VCC" "HVSP_SDO \<noteq> HVSP_VCC"
  "HVSP_SDI \<noteq> HVSP_RST" "HVSP_SII \<noteq> HVSP_RST" "HVSP_SCI \<noteq> HVSP_RST" "HVSP_SDO \<noteq> HVSP_RST"
  "HVSP_SDO \<noteq> HVSP_SDI" "HVSP_SDO \<noteq> HVSP_SII" "HVSP_SDO \<noteq> HVSP_SCI"
  "HVSP_SDI \<noteq> HVSP_SDO" "HVSP_SII \<noteq> HVSP_SDO" "HVSP_SCI \<noteq> HVSP_SDO"
  by (simp_all add: pin_defs)

lemma bit_set_pin: "n < 8 \<Longrightarrow> bit (set_pin n p) m = (m = n \<or> bit p m)"
  unfolding set_pin_def by (auto simp add: bit_simps dest: bit_imp_le_length)

lemma bit_clear_pin: "bit (clear_pin n p) m = (m \<noteq> n \<and> bit p m)"
  unfolding clear_pin_def by (auto simp add: bit_simps dest: bit_imp_le_length)

lemma power_down_eq:
  "power_down s =
    s\<lparr>PORTC := clear_pin HVSP_VCC (set_pin HVSP_RST (clear_pin HVSP_SDI
         (clear_pin HVSP_SII (clear_pin HVSP_SCI (PORTC s))))),
      trace := trace s @ power_down_events (PORTC s)\<rparr>"
  by (simp add: power_down_def power_down_events_def PORTC_clear_bit_def PORTC_set_bit_def
      set_PORTC_def delay_us_def set_pin_def clear_pin_def Let_def del: push_bit_of_1)

lemma power_up_eq:
  "power_up s =
    s\<lparr>DDRC := clear_pin HVSP_SDO (set_pin HVSP_VCC (set_pin HVSP_RST (set_pin HVSP_SDO
         (set_pin HVSP_SDI (set_pin HVSP_SII (set_pin HVSP_SCI (DDRC s))))))),
      PORTC := power_up_port (PORTC s),
      trace := trace s @ power_up_events (DDRC s) (PORTC s)\<rparr>"
  by (simp add: power_up_def power_up_events_def power_up_port_def PORTC_clear_bit_def
      PORTC_set_bit_def DDRC_set_bit_def DDRC_clear_bit_def set_DDRC_def
      set_PORTC_def delay_us_def set_pin_def clear_pin_def Let_def del: push_bit_of_1)

lemma bit_pins [simp]:
  "bit (clear_pin n p) m = (m \<noteq> n \<and> bit p m)"
  "bit (set_pin HVSP_RST p) m = (m = HVSP_RST \<or> bit p m)"
  "bit (set_pin HVSP_VCC p) m = (m = HVSP_VCC \<or> bit p m)"
  by (simp_all add: bit_clear_pin bit_set_pin pin_facts)

lemma power_up_bus [simp]: "bus_view p (power_up_events d p) = []"
  by (simp add: power_up_events_def Let_def pin_distinct pin_facts)

lemma power_up_port_after [simp]:
  "port_after p (power_up_events d p) = power_up_port p"
  by (simp add: power_up_events_def power_up_port_def Let_def)

lemma power_up_safe [simp]: "power_safe p (power_up_events d p)"
  by (simp add: power_up_events_def Let_def pin_distinct pin_facts hv_on_def vcc_on_def)

lemma power_up_levels [simp]:
  "\<not> bit (power_up_port p) HVSP_SCI"
  "vcc_on (power_up_port p)"
  "hv_on (power_up_port p)"
  by (simp_all add: power_up_port_def pin_distinct pin_facts hv_on_def vcc_on_def)

lemma power_down_bus [simp]: "bus_view p (power_down_events p) = []"
  by (simp add: power_down_events_def Let_def pin_distinct pin_facts)

lemma report_bus [simp]: "bus_view p (report_events ok q) = []"
  by (simp add: report_events_def upt_conv_Cons)

subsection \<open>The reporting loop\<close>

lemma toggle_twice: "((p :: u8) XOR m) XOR m = p"
  by (simp add: xor.assoc)

lemma clear_twice: "p AND NOT m AND NOT m = (p :: u8) AND NOT m"
  by (simp add: and.assoc)

lemma report_step:
  "i < 16 \<Longrightarrow>
    report_loop i ok s =
      report_loop (i + 1) ok
        (s\<lparr>PORTB := (if ok then clear_pin LED_PIN (PORTB s) else PORTB s XOR push_bit LED_PIN 1),
          trace := trace s @
            [OutB (if ok then clear_pin LED_PIN (PORTB s) else PORTB s XOR push_bit LED_PIN 1),
             DelayMs 250]\<rparr>)"
  by (subst report_loop.simps)
    (simp add: PORTB_clear_bit_def PORTB_toggle_bit_def set_PORTB_def delay_ms_def clear_pin_def
      del: push_bit_of_1)

lemma report_end: "report_loop 16 ok s = s"
  by (subst report_loop.simps) simp

lemma clear_pin_twice [simp]: "clear_pin n (clear_pin n p) = clear_pin n p"
  by (simp add: clear_pin_def and.assoc)

lemma report_loop_True:
  "report_loop 0 True s =
    s\<lparr>PORTB := clear_pin LED_PIN (PORTB s), trace := trace s @ report_events True (PORTB s)\<rparr>"
  apply (subst report_step, simp, simp del: push_bit_of_1)+
  apply (simp add: report_end report_events_def upt_conv_Cons del: push_bit_of_1)
  done

lemma report_loop_False:
  "report_loop 0 False s = s\<lparr>trace := trace s @ report_events False (PORTB s)\<rparr>"
  apply (subst report_step, simp, simp add: toggle_twice del: push_bit_of_1)+
  apply (simp add: report_end report_events_def upt_conv_Cons del: push_bit_of_1)
  done

lemma report_loop_eq:
  "report_loop 0 ok s =
    s\<lparr>PORTB := (if ok then clear_pin LED_PIN (PORTB s) else PORTB s),
      trace := trace s @ report_events ok (PORTB s)\<rparr>"
  by (cases ok) (simp_all add: report_loop_True report_loop_False)

lemma report_observed:
  "delays_ms (report_events ok p) = replicate 16 250"
  "indicator (report_events True p) = replicate 16 True"
  "indicator (report_events False p) =
     map (\<lambda>i. if even i then \<not> led_on p else led_on p) [0..<16]"
  "length (report_events ok p) = 32"
  by (simp_all add: report_events_def upt_conv_Cons led_on_def numeral_eq_Suc bit_clear_pin
      bit_xor_iff bit_push_bit_iff LED_PIN_def del: push_bit_of_1)

subsection \<open>Runs that return\<close>

lemma write_seq_polls:
  assumes "write_seq i3 i4 v s = Some s'"
  shows "\<exists>k1 k2. poll_ends (PINC_in s) (reads s + 32) k1 \<and> poll_ends (PINC_in s) (k1 + 9) k2"
proof -
  have "\<not> (\<forall>k\<ge>reads s + 32. \<not> sdo_high s k)"
    using write_seq_None1 [of s i3 i4 v] assms by auto
  then obtain j1 where "reads s + 32 \<le> j1" "bit (PINC_in s j1) HVSP_SDO"
    unfolding sdo_high_def by blast
  then obtain k1 where k1: "poll_ends (PINC_in s) (reads s + 32) k1"
    using poll_ends_ex by blast
  have "\<not> (\<forall>k\<ge>k1 + 9. \<not> sdo_high s k)"
    using write_seq_None2 [OF k1, of i3 i4 v] assms by auto
  then obtain j2 where "k1 + 9 \<le> j2" "bit (PINC_in s j2) HVSP_SDO"
    unfolding sdo_high_def by blast
  then obtain k2 where "poll_ends (PINC_in s) (k1 + 9) k2"
    using poll_ends_ex by blast
  with k1 show ?thesis by blast
qed

lemma write_seq_Some_seg:
  assumes "\<not> bit (PORTC s) HVSP_SCI" "write_seq i3 i4 v s = Some s'"
    and "(i3, i4, x) \<in> {(0x64, 0x6C, Low), (0x74, 0x7C, High), (0x66, 0x6E, Extended)}"
  shows "seg s s' \<and> fuse_writes (commands_of s s') = [(x, v)] \<and>
    signature_reads (commands_of s s') = [] \<and> fuse_reads (commands_of s s') = []"
proof -
  from write_seq_polls [OF assms(2)] obtain k1 k2
    where k: "poll_ends (PINC_in s) (reads s + 32) k1" "poll_ends (PINC_in s) (k1 + 9) k2"
    by blast
  from write_seq_seg [OF assms(1) k assms(3), of v] assms(2)
  show ?thesis by auto
qed

lemma restore_and_verify_Some_seg:
  assumes "\<not> bit (PORTC s) HVSP_SCI" "restore_and_verify device s = Some (ok, s')"
  shows "seg s s' \<and> signature_reads (commands_of s s') = [] \<and>
    fuse_writes (commands_of s s') = default_fuses device"
proof -
  define fl where "fl = fuseLowBits (targetCpu ! device)"
  define fh where "fh = fuseHighBits (targetCpu ! device)"
  define fe where "fe = fuseExtendedBits (targetCpu ! device)"
  from assms(2) obtain s1 s2 s3 where
    1: "write_seq 0x64 0x6C fl s = Some s1" and
    2: "write_seq 0x74 0x7C fh s1 = Some s2" and
    3: "(if fe \<noteq> 0 then write_seq 0x66 0x6E fe s2 else Some s2) = Some s3" and
    4: "verify fl fh fe s3 = (ok, s')"
    unfolding restore_and_verify_def write_seq_eqs Let_def fl_def [symmetric]
      fh_def [symmetric] fe_def [symmetric]
    by (auto split: option.splits)
  have a: "seg s s1" "fuse_writes (commands_of s s1) = [(Low, fl)]"
    "signature_reads (commands_of s s1) = []"
    using write_seq_Some_seg [OF assms(1) 1, of Low] by simp_all
  have b: "seg s1 s2" "fuse_writes (commands_of s1 s2) = [(High, fh)]"
    "signature_reads (commands_of s1 s2) = []"
    using write_seq_Some_seg [OF seg_clock [OF a(1)] 2, of High] by simp_all
  have c: "seg s2 s3 \<and> fuse_writes (commands_of s2 s3) = (if fe \<noteq> 0 then [(Extended, fe)] else [])
    \<and> signature_reads (commands_of s2 s3) = []"
  proof (cases "fe = 0")
    case True
    with 3 have "s3 = s2" by simp
    then show ?thesis
      using True seg_refl [OF seg_clock [OF b(1)]] by simp
  next
    case False
    with 3 have "write_seq 0x66 0x6E fe s2 = Some s3" by simp
    from write_seq_Some_seg [OF seg_clock [OF b(1)] this, of Extended] False
    show ?thesis by simp
  qed
  from verify_seg [OF seg_clock [OF c [THEN conjunct1]], of fl fh fe] 4
  obtain l h e where d: "seg s3 s'"
    "commands_of s3 s' =
      (if l \<noteq> fl then [ReadFuse Low l]
       else if h \<noteq> fh then [ReadFuse Low fl, ReadFuse High h]
       else if fe = 0 then [ReadFuse Low fl, ReadFuse High fh]
       else [ReadFuse Low fl, ReadFuse High fh, ReadFuse Extended e])"
    by auto
  have 12: "seg s s2" "commands_of s s2 = commands_of s s1 @ commands_of s1 s2"
    using seg_trans [OF a(1) b(1)] seg_commands [OF a(1) b(1)] by simp_all
  have 123: "seg s s3" "commands_of s s3 = commands_of s s2 @ commands_of s2 s3"
    using seg_trans [OF 12(1) c [THEN conjunct1]] seg_commands [OF 12(1) c [THEN conjunct1]]
    by simp_all
  have all: "seg s s'" "commands_of s s' = commands_of s s3 @ commands_of s3 s'"
    using seg_trans [OF 123(1) d(1)] seg_commands [OF 123(1) d(1)] by simp_all
  have w: "fuse_writes (commands_of s s') = default_fuses device"
    unfolding all(2) 123(2) 12(2)
    using a(2) b(2) c
    by (simp add: d(2) default_fuses_def fl_def fh_def fe_def)
  have sr: "signature_reads (commands_of s s') = []"
    unfolding all(2) 123(2) 12(2)
    using a(3) b(3) c by (simp add: d(2))
  from all(1) w sr show ?thesis by simp
qed

lemma scan_devices_only_reads:
  "\<not> bit (PORTC s) HVSP_SCI \<Longrightarrow>
    fuse_writes (commands_of s (snd (scan_devices device s))) = [] \<and>
    fuse_reads (commands_of s (snd (scan_devices device s))) = []"
proof (induction device s rule: scan_devices.induct)
  case (1 device s)
  show ?case
  proof (cases "device < length targetCpu \<and> signature_byte device 0 \<noteq> 0")
    case False
    then show ?thesis
      by (simp add: scan_devices_end)
  next
    case g: True
    obtain m s' where m: "signature_matches device s = (m, s')"
      by (cases "signature_matches device s")
    from signature_matches_seg [OF "1.prems", of device] m
    obtain b0 b1 b2 where s': "seg s s'" and cs: "commands_of s s' =
      ReadSignature 0 b0 #
        (if b0 = signature_byte device 0
         then ReadSignature 1 b1 #
           (if b1 = signature_byte device 1 then [ReadSignature 2 b2] else [])
         else [])"
      by auto
    have c: "fuse_writes (commands_of s s') = []" "fuse_reads (commands_of s s') = []"
      unfolding cs by simp_all
    show ?thesis
    proof (cases m)
      case True
      with g m c show ?thesis
        by (subst (1 2) scan_devices.simps) simp
    next
      case False
      then have "m = False" by simp
      from "1.IH" [OF g m [symmetric] this seg_clock [OF s']]
      have IH: "fuse_writes (commands_of s' (snd (scan_devices (device + 1) s'))) = []"
        "fuse_reads (commands_of s' (snd (scan_devices (device + 1) s'))) = []"
        by simp_all
      have com: "commands_of s (snd (scan_devices (device + 1) s')) =
          commands_of s s' @ commands_of s' (snd (scan_devices (device + 1) s'))"
        using seg_commands [OF s' scan_devices_seg [OF seg_clock [OF s']]] .
      have res: "scan_devices device s = scan_devices (device + 1) s'"
        using g m False by (subst scan_devices.simps) simp
      show ?thesis
        unfolding res com using IH c by simp
    qed
  qed
qed

lemma restore_loop_Some_seg:
  assumes "\<not> bit (PORTC s) HVSP_SCI" "restore_loop 0 s = Some (ok, s')"
  shows "seg s s'"
proof -
  obtain r s1 where r: "scan_devices 0 s = (r, s1)"
    by (cases "scan_devices 0 s")
  from scan_devices_seg [OF assms(1), of 0] r have 1: "seg s s1" by simp
  show ?thesis
  proof (cases r)
    case None
    with assms(2) r 1 show ?thesis
      by (simp add: restore_loop_scan)
  next
    case (Some d)
    with assms(2) r have "restore_and_verify d s1 = Some (ok, s')"
      by (simp add: restore_loop_scan)
    from restore_and_verify_Some_seg [OF seg_clock [OF 1] this] have "seg s1 s'" by simp
    from seg_trans [OF 1 this] show ?thesis .
  qed
qed

subsection \<open>The supply and the programming voltage\<close>

lemma power_safe_append:
  "power_safe p (xs @ ys) = (power_safe p xs \<and> power_safe (port_after p xs) ys)"
  by (induction p xs rule: power_safe.induct) auto

lemma power_safe_serial: "serial_only p es \<Longrightarrow> power_safe p es"
proof (induction p es rule: power_safe.induct)
  case (2 p v es)
  from "2.prems" obtain a b c where v: "v = drive p a b c"
    by (auto simp add: serial_only_def)
  from "2.prems" have "serial_only p es"
    by (simp add: serial_only_def)
  then have "serial_only v es"
    unfolding v by (simp only: serial_only_drive)
  from "2.IH" [OF this] show ?case
    by (simp add: v vcc_on_def bit_drive pin_distinct)
qed (simp_all add: serial_only_def)

lemma power_down_safe:
  "power_safe p (power_down_events p)"
  by (simp add: power_down_events_def Let_def pin_distinct pin_facts hv_on_def vcc_on_def)

lemma report_safe [simp]: "power_safe p (report_events ok q)"
  by (simp add: report_events_def upt_conv_Cons)

lemma decode_Idle_Nil [simp]: "decode Idle [] = []"
  by simp

lemma attempt_run:
  assumes "attempt s = Some (ok, s')"
  shows "\<exists>s1. restore_loop 0 (power_up s) = Some (ok, s1) \<and> seg (power_up s) s1 \<and>
    s' = report_loop 0 ok (power_down s1) \<and>
    trace s' = trace s @ power_up_events (DDRC s) (PORTC s) @ emitted (power_up s) s1
      @ power_down_events (PORTC s1) @ report_events ok (PORTB s) \<and>
    commands_of s s' = commands_of (power_up s) s1 \<and>
    vcc_on (PORTC s1) \<and> hv_on (PORTC s1) \<and>
    power_safe (PORTC s) (emitted s s')"
proof -
  define s0 where "s0 = power_up s"
  from assms obtain s1 where run: "restore_loop 0 s0 = Some (ok, s1)"
    and fin: "s' = report_loop 0 ok (power_down s1)"
    unfolding attempt_def s0_def by (auto split: option.splits)
  have c0: "\<not> bit (PORTC s0) HVSP_SCI"
    by (simp add: s0_def power_up_eq)
  from restore_loop_Some_seg [OF c0 run] have sg: "seg s0 s1" .
  define L where "L = emitted s0 s1"
  have t0: "trace s0 = trace s @ power_up_events (DDRC s) (PORTC s)"
    and p0: "PORTC s0 = power_up_port (PORTC s)"
    and b0: "PORTB s0 = PORTB s"
    by (simp_all add: s0_def power_up_eq)
  from sg have t1: "trace s1 = trace s0 @ L" and b1: "PORTB s1 = PORTB s0"
    and so: "serial_only (PORTC s0) L" and pa: "port_after (PORTC s0) L = PORTC s1"
    and dec: "\<And>es. decode Idle (bus_view (PORTC s0) (L @ es)) =
       items_of s0 s1 @ decode Idle (bus_view (PORTC s1) es)"
    by (simp_all add: seg_def L_def)
  have tr: "trace s' = trace s @ power_up_events (DDRC s) (PORTC s) @ L
      @ power_down_events (PORTC s1) @ report_events ok (PORTB s)"
    by (simp add: fin report_loop_eq power_down_eq t1 t0 b1 b0)
  then have em: "emitted s s' = power_up_events (DDRC s) (PORTC s) @ L
      @ power_down_events (PORTC s1) @ report_events ok (PORTB s)"
    by (simp add: emitted_def)
  from serial_only_port_after [OF so] pa obtain a b c
    where p1: "PORTC s1 = drive (PORTC s0) a b c" by auto
  have lv: "vcc_on (PORTC s1)" "hv_on (PORTC s1)"
    unfolding p1 p0
    using power_up_levels(2,3) [of "PORTC s"]
    by (simp_all add: vcc_on_def hv_on_def bit_drive pin_distinct)
  have bv: "bus_view (PORTC s1) (power_down_events (PORTC s1) @ report_events ok (PORTB s)) = []"
    by (simp add: bus_view_append)
  have com: "commands_of s s' = commands_of s0 s1"
    unfolding commands_of_def [of s s'] em
    using dec [of "power_down_events (PORTC s1) @ report_events ok (PORTB s)"]
    by (simp add: bus_view_append p0 [symmetric] bv commands_of_items)
  have safe: "power_safe (PORTC s) (emitted s s')"
    unfolding em
    using power_safe_serial [OF so]
    by (simp add: power_safe_append port_after_append p0 [symmetric] pa power_down_safe)
  from run sg fin tr com lv safe show ?thesis
    unfolding s0_def L_def by blast
qed

lemma attempt_frame:
  assumes "attempt s = Some (ok, s')"
  shows "PINB_in s' = PINB_in s \<and> PINC_in s' = PINC_in s \<and> reads s \<le> reads s' \<and>
    PORTB s' = (if ok then clear_pin LED_PIN (PORTB s) else PORTB s)"
proof -
  from attempt_run [OF assms] obtain s1 where sg: "seg (power_up s) s1"
    and fin: "s' = report_loop 0 ok (power_down s1)"
    by blast
  from sg have "PINB_in s1 = PINB_in s" "PINC_in s1 = PINC_in s" "reads s \<le> reads s1"
    "PORTB s1 = PORTB s"
    by (simp_all add: seg_def power_up_eq)
  then show ?thesis
    by (simp add: fin report_loop_eq power_down_eq)
qed

subsection \<open>A target that answers every read with \<^verbatim>\<open>0xFF\<close>\<close>

lemma high_answers:
  assumes "\<not> bit (PORTC s) HVSP_SCI" "PINC_in s = (\<lambda>n. 4)"
  shows "signature_answers [0xFF, 0xFF, 0xFF] 0 s"
proof -
  have "[0xFF, 0xFF, 0xFF] ! unat k = (0xFF :: u8)" if "k < 3" for k :: u8
  proof -
    from that have "unat k < 3" by (simp add: word_less_nat_alt)
    then consider "unat k = 0" | "unat k = 1" | "unat k = 2" by linarith
    then show ?thesis by cases simp_all
  qed
  then show ?thesis
    unfolding signature_answers_def
    using scan_devices_reads_rx [OF assms(1), of 0] by (fastforce simp add: assms(2))
qed

lemma no_record_high: "\<forall>r\<in>set targetCpu. signature r \<noteq> [0xFF, 0xFF, 0xFF]"
  by (simp add: targetCpu_def SIGNATURE_0_def)

lemma high_scan:
  assumes "\<not> bit (PORTC s) HVSP_SCI" "PINC_in s = (\<lambda>n. 4)"
  shows "fst (scan_devices 0 s) = None"
  using scan_devices_answers [OF assms(1) _ high_answers [OF assms]]
    find_device_None [OF no_record_high]
  by simp

lemma high_attempt:
  assumes "PINC_in s = (\<lambda>n. 4)"
  shows "\<exists>s'. attempt s = Some (False, s')"
proof -
  have c: "\<not> bit (PORTC (power_up s)) HVSP_SCI" "PINC_in (power_up s) = (\<lambda>n. 4)"
    by (simp_all add: power_up_eq assms)
  from high_scan [OF c] obtain s1 where "scan_devices 0 (power_up s) = (None, s1)"
    by (cases "scan_devices 0 (power_up s)") simp
  then have "restore_loop 0 (power_up s) = Some (False, s1)"
    by (simp add: restore_loop_scan)
  then show ?thesis
    by (simp add: attempt_def)
qed

subsection \<open>One pass through the main loop\<close>

lemma switch_test: "(0 = (w::u8) AND push_bit SWITCH_PIN 1) = (\<not> bit w SWITCH_PIN)"
  using mask_test [of SWITCH_PIN w] by (auto simp add: SWITCH_PIN_def simp del: push_bit_of_1)

lemma led_check:
  "snd (read_PINB (PORTB_set_bit LED_PIN s)) =
    s\<lparr>PORTB := set_pin LED_PIN (PORTB s), reads := reads s + 1,
      trace := trace s @ [OutB (set_pin LED_PIN (PORTB s)), InB (PINB_in s (reads s))]\<rparr>"
  by (simp add: read_PINB_def PORTB_set_bit_def set_PORTB_def set_pin_def del: push_bit_of_1)

lemma main_body_eq:
  "main_body s =
    (if bit (PINB_in s (reads s)) SWITCH_PIN
     then Some (snd (read_PINB (PORTB_set_bit LED_PIN s)))
     else map_option snd (attempt (snd (read_PINB (PORTB_set_bit LED_PIN s)))))"
  unfolding main_body_def Let_def split_def switch_test
  by (simp add: read_PINB_def PORTB_set_bit_def set_PORTB_def)

lemma led_off [simp]: "\<not> led_on (set_pin LED_PIN p)"
  by (simp add: led_on_def bit_set_pin LED_PIN_def)

lemma sum_delays: "sum_list (replicate 16 (250::nat)) = 4000"
  by (simp add: sum_list_replicate)

lemma pressed_once_simps [simp]:
  "PINC_in pressed_once_board = (\<lambda>n. 4)" "reads pressed_once_board = 0"
  "PINB_in pressed_once_board = (\<lambda>n. if n = 0 then 0 else 2)"
  "PORTB pressed_once_board = 0" "trace pressed_once_board = []"
  by (simp_all add: pressed_once_board_def high_board_def bench_def)

subsection \<open>An attempt on a target that no record describes\<close>

lemma find_device_records:
  "\<forall>r\<in>set (butlast targetCpu). signature r \<noteq> sig \<Longrightarrow> find_device targetCpu sig = None"
  by (simp add: targetCpu_def)

lemma power_up_fields [simp]:
  "\<not> bit (PORTC (power_up s)) HVSP_SCI" "PINC_in (power_up s) = PINC_in s"
  "reads (power_up s) = reads s" "PORTB (power_up s) = PORTB s"
  "responsive (power_up s) = responsive s"
  "trace (power_up s) = trace s @ power_up_events (DDRC s) (PORTC s)"
  by (simp_all add: power_up_eq responsive_def sdo_high_def)

text \<open>
  Claim C5. On a target whose live signature \<open>sig\<close> is the signature of no device record
  of the table (the records before the terminator), the device loop ends at the
  terminator without entering the restore step, the attempt returns with failure, the
  bus shows no fuse write (and no fuse read) during the whole attempt, and the events
  that follow the scan are those of power-down and then those of the failure report.
\<close>

theorem no_match_no_write:
  "length sig = 3 \<Longrightarrow> signature_answers sig 0 (power_up s) \<Longrightarrow>
    \<forall>r\<in>set (butlast targetCpu). signature r \<noteq> sig \<Longrightarrow>
    \<exists>s1 s'. attempt s = Some (False, s') \<and>
      scan_devices 0 (power_up s) = (None, s1) \<and>
      restore_loop 0 (power_up s) = Some (False, s1) \<and>
      fuse_writes (commands_of s s') = [] \<and>
      fuse_reads (commands_of s s') = [] \<and>
      trace s' = trace s1 @ power_down_events (PORTC s1) @ report_events False (PORTB s)"
proof -
  assume len: "length sig = 3" and ans: "signature_answers sig 0 (power_up s)"
    and no: "\<forall>r\<in>set (butlast targetCpu). signature r \<noteq> sig"
  define s0 where "s0 = power_up s"
  define s1 where "s1 = snd (scan_devices 0 s0)"
  define s' where "s' = report_loop 0 False (power_down s1)"
  have c0: "\<not> bit (PORTC s0) HVSP_SCI" by (simp add: s0_def)
  from scan_devices_answers [OF c0 len ans [folded s0_def]] find_device_records [OF no]
  have "fst (scan_devices 0 s0) = None" by simp
  then have scan: "scan_devices 0 s0 = (None, s1)"
    by (simp add: s1_def prod_eq_iff)
  then have run: "restore_loop 0 s0 = Some (False, s1)"
    by (simp add: restore_loop_scan)
  then have a: "attempt s = Some (False, s')"
    by (simp add: attempt_def s0_def s'_def)
  from attempt_run [OF a] run obtain
    sg: "seg s0 s1" and
    tr: "trace s' = trace s @ power_up_events (DDRC s) (PORTC s) @ emitted s0 s1
      @ power_down_events (PORTC s1) @ report_events False (PORTB s)" and
    com: "commands_of s s' = commands_of s0 s1"
    unfolding s0_def [symmetric] by auto
  from sg have "trace s1 = trace s @ power_up_events (DDRC s) (PORTC s) @ emitted s0 s1"
    by (simp add: seg_def s0_def)
  with tr have tr': "trace s' =
      trace s1 @ power_down_events (PORTC s1) @ report_events False (PORTB s)"
    by simp
  from scan_devices_only_reads [OF c0, of 0]
  have w: "fuse_writes (commands_of s s') = []" "fuse_reads (commands_of s s') = []"
    unfolding com s1_def by simp_all
  show ?thesis
    unfolding s0_def [symmetric]
    using a scan run w tr'
    by (intro exI [of _ s1] exI [of _ s'] conjI)
qed

theorem no_match_no_write_witness:
  "length [0xFF, 0xFF, 0xFF :: u8] = 3 \<and>
   signature_answers [0xFF, 0xFF, 0xFF] 0 (power_up high_board) \<and>
   [0xFF, 0xFF, 0xFF] \<notin> set (map signature (butlast targetCpu)) \<and>
   (\<exists>s1 s'. attempt high_board = Some (False, s') \<and>
      scan_devices 0 (power_up high_board) = (None, s1) \<and>
      fuse_writes (commands_of high_board s') = [] \<and>
      trace s' = trace s1 @ power_down_events (PORTC s1) @ report_events False 0)"
proof -
  have len: "length [0xFF, 0xFF, 0xFF :: u8] = 3" by simp
  have ans: "signature_answers [0xFF, 0xFF, 0xFF] 0 (power_up high_board)"
    by (rule high_answers) simp_all
  have no: "\<forall>r\<in>set (butlast targetCpu). signature r \<noteq> [0xFF, 0xFF, 0xFF]"
    by (simp add: targetCpu_def SIGNATURE_0_def)
  then have no': "[0xFF, 0xFF, 0xFF] \<notin> set (map signature (butlast targetCpu))"
    by auto
  from no_match_no_write [OF len ans no] len ans no' show ?thesis
    by (simp add: high_board_def bench_def) blast
qed

subsection \<open>An attempt on an ATtiny13\<close>

lemma tiny13_live:
  assumes c: "\<not> bit (PORTC s) HVSP_SCI"
    and ans: "signature_answers [0x1E, 0x90, 0x07] 0 s"
  shows "scan_devices 0 s = (Some 0, snd (signature_matches 0 s)) \<and>
    seg s (snd (signature_matches 0 s)) \<and>
    commands_of s (snd (signature_matches 0 s)) =
      [ReadSignature 0 0x1E, ReadSignature 1 0x90, ReadSignature 2 0x07]"
proof -
  define sm where "sm = snd (signature_matches 0 s)"
  define m where "m = fst (signature_matches 0 s)"
  have l: "0 < length targetCpu" by simp
  have n: "signature_byte 0 0 \<noteq> 0" by simp
  from scan_devices_step [OF c l n sm_def] obtain b0 b1 b2 where
    sg: "seg s sm" and
    cs: "commands_of s sm =
      ReadSignature 0 b0 #
        (if b0 = 0x1E then ReadSignature 1 b1 # (if b1 = 0x90 then [ReadSignature 2 b2] else [])
         else [])" and
    ok: "m \<longleftrightarrow> b0 = 0x1E \<and> b1 = 0x90 \<and> b2 = 0x07" and
    step: "if m then scan_devices 0 s = (Some 0, sm)
      else scan_devices 0 s = scan_devices (0 + 1) sm \<and>
        commands_of s (snd (scan_devices 0 s)) =
          commands_of s sm @ commands_of sm (snd (scan_devices (0 + 1) sm))"
    unfolding m_def [symmetric] tiny13_record by blast
  have "\<exists>X. commands_of s (snd (scan_devices 0 s)) = commands_of s sm @ X"
  proof (cases m)
    case True
    with step have "scan_devices 0 s = (Some 0, sm)" by simp
    then show ?thesis by simp
  next
    case False
    with step show ?thesis by auto
  qed
  then obtain X where "commands_of s (snd (scan_devices 0 s)) = commands_of s sm @ X" ..
  with ans have a: "\<forall>(k, r) \<in> set (signature_reads (commands_of s sm)).
      r = [0x1E, 0x90, 0x07] ! unat k"
    unfolding signature_answers_def by auto
  have 0: "b0 = 0x1E"
    using a unfolding cs by simp
  have 1: "b1 = 0x90"
    using a unfolding cs 0 by simp
  have 2: "b2 = 0x07"
    using a unfolding cs 0 1 by simp
  from ok 0 1 2 have m by simp
  with step have "scan_devices 0 s = (Some 0, sm)" by simp
  with sg cs 0 1 2 show ?thesis
    unfolding sm_def by simp
qed

text \<open>
  Claim C7. Against a target that answers the signature reads with \<^verbatim>\<open>0x1E\<close>, \<^verbatim>\<open>0x90\<close>,
  \<^verbatim>\<open>0x07\<close> and completes its polls, the attempt returns; the scan selects record 0, the
  ATtiny13 record, after reading the three signature bytes once; the bus shows the write
  of \<^verbatim>\<open>0x6A\<close> to the low fuse byte and of \<^verbatim>\<open>0xFF\<close> to the high fuse byte and no write to the
  extended fuse byte, the stored extended value being zero; and the attempt is successful
  exactly when the fuse reads that follow return \<^verbatim>\<open>0x6A\<close> for the low and \<^verbatim>\<open>0xFF\<close> for the
  high fuse byte.
\<close>

theorem tiny13_attempt:
  "signature_answers [0x1E, 0x90, 0x07] 0 (power_up s) \<Longrightarrow> responsive s \<Longrightarrow>
    \<exists>ok s'. attempt s = Some (ok, s') \<and>
      fst (scan_devices 0 (power_up s)) = Some 0 \<and>
      signature (targetCpu ! 0) = [0x1E, 0x90, 0x07] \<and>
      fuseExtendedBits (targetCpu ! 0) = 0 \<and>
      signature_reads (commands_of s s') = [(0, 0x1E), (1, 0x90), (2, 0x07)] \<and>
      fuse_writes (commands_of s s') = [(Low, 0x6A), (High, 0xFF)] \<and>
      (ok \<longleftrightarrow> fuse_reads (commands_of s s') = [(Low, 0x6A), (High, 0xFF)])"
proof -
  assume ans: "signature_answers [0x1E, 0x90, 0x07] 0 (power_up s)" and resp: "responsive s"
  define s0 where "s0 = power_up s"
  define sm where "sm = snd (signature_matches 0 s0)"
  have c0: "\<not> bit (PORTC s0) HVSP_SCI" by (simp add: s0_def)
  from tiny13_live [OF c0 ans [folded s0_def]]
  have scan: "scan_devices 0 s0 = (Some 0, sm)" and sg: "seg s0 sm"
    and cs: "commands_of s0 sm =
      [ReadSignature 0 0x1E, ReadSignature 1 0x90, ReadSignature 2 0x07]"
    unfolding sm_def by simp_all
  have rm: "responsive sm"
    using seg_responsive [OF sg] resp by (simp add: s0_def)
  from restore_and_verify_seg [OF seg_clock [OF sg] rm, of 0]
  obtain ok s1 l h e where rv: "restore_and_verify 0 sm = Some (ok, s1)" and sg1: "seg sm s1"
    and sr: "signature_reads (commands_of sm s1) = []"
    and fw: "fuse_writes (commands_of sm s1) = [(Low, 0x6A), (High, 0xFF)]"
    and fr: "fuse_reads (commands_of sm s1) =
      (if l \<noteq> 0x6A then [(Low, l)]
       else if h \<noteq> 0xFF then [(Low, 0x6A), (High, h)]
       else [(Low, 0x6A), (High, 0xFF)])"
    and ok: "ok \<longleftrightarrow> l = 0x6A \<and> h = 0xFF"
    unfolding default_fuses_def by (auto simp add: targetCpu_fuses)
  define s' where "s' = report_loop 0 ok (power_down s1)"
  have run: "restore_loop 0 s0 = Some (ok, s1)"
    by (simp add: restore_loop_scan scan rv)
  then have a: "attempt s = Some (ok, s')"
    by (simp add: attempt_def s0_def s'_def)
  from attempt_run [OF a] run have "commands_of s s' = commands_of s0 s1"
    unfolding s0_def [symmetric] by auto
  then have com: "commands_of s s' = commands_of s0 sm @ commands_of sm s1"
    using seg_commands [OF sg sg1] by simp
  have 1: "signature_reads (commands_of s s') = [(0, 0x1E), (1, 0x90), (2, 0x07)]"
    unfolding com by (simp add: cs sr)
  have 2: "fuse_writes (commands_of s s') = [(Low, 0x6A), (High, 0xFF)]"
    unfolding com by (simp add: cs fw)
  have 3: "ok \<longleftrightarrow> fuse_reads (commands_of s s') = [(Low, 0x6A), (High, 0xFF)]"
    unfolding com ok by (simp add: cs fr)
  have 4: "fst (scan_devices 0 (power_up s)) = Some 0"
    using scan by (simp add: s0_def)
  have 5: "signature (targetCpu ! 0) = [0x1E, 0x90, 0x07]" "fuseExtendedBits (targetCpu ! 0) = 0"
    by simp_all
  show ?thesis
    using a 1 2 3 4 5 by (intro exI [of _ ok] exI [of _ s'] conjI)
qed

lemma tiny13_answers:
  assumes "\<not> bit (PORTC s) HVSP_SCI" "PINC_in s = tiny13_sdo" "reads s = 0"
  shows "signature_answers [0x1E, 0x90, 0x07] 0 s"
proof -
  have l: "0 < length targetCpu" by simp
  have n: "signature_byte 0 0 \<noteq> 0" by simp
  have b: "rx_byte (PINC_in s) (reads s + 24) = signature_byte 0 0"
    "rx_byte (PINC_in s) (reads s + 56) = signature_byte 0 1"
    "rx_byte (PINC_in s) (reads s + 88) = signature_byte 0 2"
    by (simp_all add: assms signature_byte_def targetCpu_def SIGNATURE_0_def)
  from scan_devices_match [OF assms(1) l n b]
  have "scan_devices 0 s = (Some 0, snd (signature_matches 0 s))"
    "commands_of s (snd (signature_matches 0 s)) =
      [ReadSignature 0 (signature_byte 0 0), ReadSignature 1 (signature_byte 0 1),
       ReadSignature 2 (signature_byte 0 2)]"
    by blast+
  then show ?thesis
    unfolding signature_answers_def
    by (simp add: signature_byte_def targetCpu_def SIGNATURE_0_def)
qed

lemma tiny13_matched:
  assumes "PINC_in s = tiny13_sdo" "reads s = 0"
  shows "PINC_in (snd (signature_matches 0 s)) = tiny13_sdo"
    "reads (snd (signature_matches 0 s)) = 96"
  by (simp_all add: signature_matches_def split_def Let_def assms signature_byte_def
      targetCpu_def SIGNATURE_0_def)

lemma tiny13_polls:
  "poll_ends tiny13_sdo 128 128" "poll_ends tiny13_sdo 137 137"
  "poll_ends tiny13_sdo 170 170" "poll_ends tiny13_sdo 179 179"
  by (simp_all add: poll_ends_def tiny13_sdo_def HVSP_SDO_def)

lemma tiny13_restore:
  assumes "PINC_in t = tiny13_sdo" "reads t = 96"
  shows "\<exists>s1. restore_and_verify 0 t = Some (True, s1)"
proof -
  have p1: "poll_ends (PINC_in t) (reads t + 32) 128" "poll_ends (PINC_in t) (128 + 9) 137"
    by (simp_all add: assms tiny13_polls)
  from write_seq_Some [OF p1, of "0x64" "0x6C" "0x6A"]
  obtain t1 where w1: "writeFuseLowBits 0x6A t = Some t1" and f1: "PINC_in t1 = tiny13_sdo"
    "reads t1 = 138"
    unfolding write_seq_eqs by (simp add: assms)
  have p2: "poll_ends (PINC_in t1) (reads t1 + 32) 170" "poll_ends (PINC_in t1) (170 + 9) 179"
    by (simp_all add: f1 tiny13_polls)
  from write_seq_Some [OF p2, of "0x74" "0x7C" "0xFF"]
  obtain t2 where w2: "writeFuseHighBits 0xFF t1 = Some t2" and f2: "PINC_in t2 = tiny13_sdo"
    "reads t2 = 180"
    unfolding write_seq_eqs by (simp add: f1)
  have v: "fst (verify 0x6A 0xFF 0 t2)"
    by (simp add: verify_def readFuseLowBits_eq readFuseHighBits_eq f2)
  show ?thesis
    using w1 w2 v
    by (simp add: restore_and_verify_def prod_eq_iff)
qed

lemma tiny13_responsive [simp]: "responsive tiny13_board"
  unfolding responsive_def sdo_high_def
proof
  fix t
  have "t \<le> t + 204" "bit (PINC_in tiny13_board (t + 204)) HVSP_SDO"
    by (simp_all add: tiny13_sdo_def HVSP_SDO_def)
  then show "\<exists>k\<ge>t. bit (PINC_in tiny13_board k) HVSP_SDO" by blast
qed

theorem tiny13_attempt_witness:
  "signature_answers [0x1E, 0x90, 0x07] 0 (power_up tiny13_board) \<and> responsive tiny13_board \<and>
   (\<exists>s'. attempt tiny13_board = Some (True, s') \<and>
      signature_reads (commands_of tiny13_board s') = [(0, 0x1E), (1, 0x90), (2, 0x07)] \<and>
      fuse_writes (commands_of tiny13_board s') = [(Low, 0x6A), (High, 0xFF)] \<and>
      fuse_reads (commands_of tiny13_board s') = [(Low, 0x6A), (High, 0xFF)])"
proof -
  define s0 where "s0 = power_up tiny13_board"
  have f0: "\<not> bit (PORTC s0) HVSP_SCI" "PINC_in s0 = tiny13_sdo" "reads s0 = 0"
    by (simp_all add: s0_def)
  have ans: "signature_answers [0x1E, 0x90, 0x07] 0 (power_up tiny13_board)"
    using tiny13_answers [OF f0] by (simp add: s0_def)
  have resp: "responsive tiny13_board" by simp
  from tiny13_live [OF f0(1) ans [folded s0_def]]
  have "scan_devices 0 s0 = (Some 0, snd (signature_matches 0 s0))" by simp
  moreover from tiny13_restore [OF tiny13_matched [OF f0(2,3)]]
  obtain s1 where "restore_and_verify 0 (snd (signature_matches 0 s0)) = Some (True, s1)"
    by blast
  ultimately have "restore_loop 0 s0 = Some (True, s1)"
    by (simp add: restore_loop_scan)
  then have a: "attempt tiny13_board = Some (True, report_loop 0 True (power_down s1))"
    by (simp add: attempt_def s0_def)
  from tiny13_attempt [OF ans resp] a ans resp show ?thesis
    by auto
qed

subsection \<open>The device loop stays inside the table\<close>

lemma device_loop_in_bounds:
  "device < length targetCpu \<and> signature_byte device 0 \<noteq> 0 \<longleftrightarrow> device < 7"
proof
  assume a: "device < length targetCpu \<and> signature_byte device 0 \<noteq> 0"
  have "signature_byte 7 0 = 0"
    by (simp add: signature_byte_def targetCpu_def)
  with a have "device \<noteq> 7" by auto
  with a show "device < 7" by simp
next
  assume "device < 7"
  then show "device < length targetCpu \<and> signature_byte device 0 \<noteq> 0"
    by (rule live_records)
qed



subsection \<open>An attempt on an ATtiny24 that keeps its fuses\<close>

lemma tiny24_rx [simp]:
  "rx_byte tiny24_sdo 24 = 0x1E" "rx_byte tiny24_sdo 56 = 0x91" "rx_byte tiny24_sdo 88 = 0x1E"
  "rx_byte tiny24_sdo 120 = 0x91" "rx_byte tiny24_sdo 152 = 0x0B" "rx_byte tiny24_sdo 302 = 0xFF"
  by (simp_all add: rx_byte_def shift_in_def tiny24_sdo_def HVSP_SDO_def)

lemma tiny24_board_simps [simp]:
  "PORTC tiny24_board = 0" "PINC_in tiny24_board = tiny24_sdo" "reads tiny24_board = 0"
  "trace tiny24_board = []" "PORTB tiny24_board = 0"
  by (simp_all add: tiny24_board_def bench_def)

lemma tiny24_polls:
  "158 \<le> k \<Longrightarrow> poll_ends tiny24_sdo k k"
  by (simp add: poll_ends_def tiny24_sdo_def HVSP_SDO_def)

lemma tiny24_responsive [simp]: "responsive tiny24_board"
  unfolding responsive_def sdo_high_def
proof
  fix t
  have "t \<le> t + 158" "bit (PINC_in tiny24_board (t + 158)) HVSP_SDO"
    by (simp_all add: tiny24_sdo_def HVSP_SDO_def)
  then show "\<exists>k\<ge>t. bit (PINC_in tiny24_board k) HVSP_SDO" by blast
qed

lemma signature_matches_fields:
  "PINC_in (snd (signature_matches device s)) = PINC_in s"
  "reads (snd (signature_matches device s)) =
    reads s +
      (if rx_byte (PINC_in s) (reads s + 24) = signature_byte device 0
       then if rx_byte (PINC_in s) (reads s + 56) = signature_byte device 1 then 96 else 64
       else 32)"
  by (simp_all add: signature_matches_def split_def Let_def add.commute)

lemma records_01 [simp]:
  "signature_byte 0 (Suc 0) = 0x90" "signature_byte (Suc 0) 0 = 0x1E"
  "signature_byte (Suc 0) (Suc 0) = 0x91" "signature_byte (Suc 0) 2 = 0x0B"
  by (simp_all add: signature_byte_def targetCpu_def SIGNATURE_0_def)

lemma tiny24_scan:
  assumes c: "\<not> bit (PORTC s) HVSP_SCI" and f: "PINC_in s = tiny24_sdo" "reads s = 0"
  shows "\<exists>t. scan_devices 0 s = (Some 1, t) \<and> seg s t \<and> PINC_in t = tiny24_sdo \<and>
    reads t = 160 \<and>
    commands_of s t =
      [ReadSignature 0 0x1E, ReadSignature 1 0x91,
       ReadSignature 0 0x1E, ReadSignature 1 0x91, ReadSignature 2 0x0B]"
proof -
  define s1 where "s1 = snd (signature_matches 0 s)"
  define t where "t = snd (signature_matches 1 s1)"
  from signature_matches_rx [OF c refl refl refl, of 0]
  have 1: "seg s s1" "commands_of s s1 = [ReadSignature 0 0x1E, ReadSignature 1 0x91]"
    "\<not> fst (signature_matches 0 s)"
    by (simp_all add: f s1_def)
  have f1: "PINC_in s1 = tiny24_sdo" "reads s1 = 64"
    by (simp_all add: s1_def signature_matches_fields f)
  have c1: "\<not> bit (PORTC s1) HVSP_SCI" by (rule seg_clock [OF 1(1)])
  have step: "scan_devices 0 s = scan_devices 1 s1"
    using 1(3) by (subst scan_devices.simps) (simp add: split_def s1_def)
  have b: "rx_byte (PINC_in s1) (reads s1 + 24) = signature_byte 1 0"
    "rx_byte (PINC_in s1) (reads s1 + 56) = signature_byte 1 1"
    "rx_byte (PINC_in s1) (reads s1 + 88) = signature_byte 1 2"
    by (simp_all add: f1)
  have l: "1 < length targetCpu" "signature_byte 1 0 \<noteq> 0" by simp_all
  from scan_devices_match [OF c1 l b]
  have 2: "scan_devices 1 s1 = (Some 1, t)" "seg s1 t"
    "commands_of s1 t = [ReadSignature 0 0x1E, ReadSignature 1 0x91, ReadSignature 2 0x0B]"
    by (simp_all add: t_def)
  have f2: "PINC_in t = tiny24_sdo" "reads t = 160"
    by (simp_all add: t_def signature_matches_fields f1)
  show ?thesis
    using step 2(1) seg_trans [OF 1(1) 2(2)] seg_commands [OF 1(1) 2(2)] f2 1(2) 2(3)
    by (intro exI [of _ t]) simp
qed

lemma tiny24_restore:
  assumes c: "\<not> bit (PORTC t) HVSP_SCI" and f: "PINC_in t = tiny24_sdo" "reads t = 160"
  shows "\<exists>s1. restore_and_verify 1 t = Some (False, s1) \<and> seg t s1 \<and>
    signature_reads (commands_of t s1) = [] \<and>
    fuse_writes (commands_of t s1) = [(Low, 0x62), (High, 0xDF), (Extended, 0xFF)] \<and>
    fuse_reads (commands_of t s1) = [(Low, 0xFF)]"
proof -
  have p1: "poll_ends (PINC_in t) (reads t + 32) 192" "poll_ends (PINC_in t) (192 + 9) 201"
    by (simp_all add: f tiny24_polls)
  from write_seq_Some [OF p1, of "0x64" "0x6C" "0x62"]
  obtain t1 where w1: "write_seq 0x64 0x6C 0x62 t = Some t1" and f1: "PINC_in t1 = tiny24_sdo"
    "reads t1 = 202"
    by (simp add: f)
  note g1 = write_seq_Some_seg [OF c w1, of Low, simplified]
  have p2: "poll_ends (PINC_in t1) (reads t1 + 32) 234" "poll_ends (PINC_in t1) (234 + 9) 243"
    by (simp_all add: f1 tiny24_polls)
  from write_seq_Some [OF p2, of "0x74" "0x7C" "0xDF"]
  obtain t2 where w2: "write_seq 0x74 0x7C 0xDF t1 = Some t2" and f2: "PINC_in t2 = tiny24_sdo"
    "reads t2 = 244"
    by (simp add: f1)
  have c1: "\<not> bit (PORTC t1) HVSP_SCI" using g1 seg_clock by blast
  note g2 = write_seq_Some_seg [OF c1 w2, of High, simplified]
  have p3: "poll_ends (PINC_in t2) (reads t2 + 32) 276" "poll_ends (PINC_in t2) (276 + 9) 285"
    by (simp_all add: f2 tiny24_polls)
  from write_seq_Some [OF p3, of "0x66" "0x6E" "0xFF"]
  obtain t3 where w3: "write_seq 0x66 0x6E 0xFF t2 = Some t3" and f3: "PINC_in t3 = tiny24_sdo"
    "reads t3 = 286"
    by (simp add: f2)
  have c2: "\<not> bit (PORTC t2) HVSP_SCI" using g2 seg_clock by blast
  note g3 = write_seq_Some_seg [OF c2 w3, of Extended, simplified]
  have c3: "\<not> bit (PORTC t3) HVSP_SCI" using g3 seg_clock by blast
  define s1 where "s1 = snd (readFuseLowBits t3)"
  have l: "fst (readFuseLowBits t3) = 0xFF"
    by (simp add: readFuseLowBits_eq f3)
  have v: "verify 0x62 0xDF 0xFF t3 = (False, s1)"
    by (simp add: verify_def split_def l s1_def)
  have g4: "seg t3 s1" "commands_of t3 s1 = [ReadFuse Low 0xFF]"
    using readFuseLowBits_seg [OF c3] by (simp_all add: s1_def l)
  have run: "restore_and_verify 1 t = Some (False, s1)"
    using w1 w2 w3 v by (simp add: restore_and_verify_def write_seq_eqs)
  have 12: "seg t t2" "commands_of t t2 = commands_of t t1 @ commands_of t1 t2"
    using seg_trans [of t t1 t2] seg_commands [of t t1 t2] g1 g2 by simp_all
  have 123: "seg t t3" "commands_of t t3 = commands_of t t2 @ commands_of t2 t3"
    using seg_trans [OF 12(1), of t3] seg_commands [OF 12(1), of t3] g3 by simp_all
  have all: "seg t s1" "commands_of t s1 = commands_of t t3 @ commands_of t3 s1"
    using seg_trans [OF 123(1) g4(1)] seg_commands [OF 123(1) g4(1)] by simp_all
  show ?thesis
    using run all(1) g1 g2 g3
    by (intro exI [of _ s1]) (simp add: all(2) 123(2) 12(2) g4(2))
qed

lemma tiny24_attempt:
  "\<exists>s'. attempt tiny24_board = Some (False, s') \<and>
    signature_reads (commands_of tiny24_board s') =
      [(0, 0x1E), (1, 0x91), (0, 0x1E), (1, 0x91), (2, 0x0B)] \<and>
    fuse_writes (commands_of tiny24_board s') = [(Low, 0x62), (High, 0xDF), (Extended, 0xFF)] \<and>
    fuse_reads (commands_of tiny24_board s') = [(Low, 0xFF)]"
proof -
  define s0 where "s0 = power_up tiny24_board"
  have f0: "\<not> bit (PORTC s0) HVSP_SCI" "PINC_in s0 = tiny24_sdo" "reads s0 = 0"
    by (simp_all add: s0_def)
  from tiny24_scan [OF f0] obtain t where t: "scan_devices 0 s0 = (Some 1, t)" "seg s0 t"
    "PINC_in t = tiny24_sdo" "reads t = 160"
    "commands_of s0 t =
      [ReadSignature 0 0x1E, ReadSignature 1 0x91,
       ReadSignature 0 0x1E, ReadSignature 1 0x91, ReadSignature 2 0x0B]"
    by blast
  from tiny24_restore [OF seg_clock [OF t(2)] t(3,4)] obtain s1 where
    r: "restore_and_verify 1 t = Some (False, s1)" "seg t s1"
    "signature_reads (commands_of t s1) = []"
    "fuse_writes (commands_of t s1) = [(Low, 0x62), (High, 0xDF), (Extended, 0xFF)]"
    "fuse_reads (commands_of t s1) = [(Low, 0xFF)]"
    by blast
  have run: "restore_loop 0 s0 = Some (False, s1)"
    using r(1) by (simp add: restore_loop_scan t(1))
  define s' where "s' = report_loop 0 False (power_down s1)"
  have a: "attempt tiny24_board = Some (False, s')"
    using run by (simp add: attempt_def s0_def s'_def)
  from attempt_run [OF a] run have "commands_of tiny24_board s' = commands_of s0 s1"
    unfolding s0_def [symmetric] by auto
  then have com: "commands_of tiny24_board s' = commands_of s0 t @ commands_of t s1"
    using seg_commands [OF t(2) r(2)] by simp
  show ?thesis
    using a by (intro exI [of _ s']) (simp add: com t(5) r(3,4,5))
qed

subsection \<open>Writing, then verifying\<close>

lemma restore_then_verify:
  assumes "\<not> bit (PORTC s) HVSP_SCI" "responsive s"
  shows "\<exists>ok s3 s' l h e. restore_and_verify device s = Some (ok, s') \<and>
    seg s s3 \<and> seg s3 s' \<and>
    fuse_writes (commands_of s s3) = default_fuses device \<and>
    fuse_reads (commands_of s s3) = [] \<and>
    commands_of s3 s' =
      (if l \<noteq> fuseLowBits (targetCpu ! device) then [ReadFuse Low l]
       else if h \<noteq> fuseHighBits (targetCpu ! device)
         then [ReadFuse Low (fuseLowBits (targetCpu ! device)), ReadFuse High h]
       else if fuseExtendedBits (targetCpu ! device) = 0
         then [ReadFuse Low (fuseLowBits (targetCpu ! device)),
               ReadFuse High (fuseHighBits (targetCpu ! device))]
       else [ReadFuse Low (fuseLowBits (targetCpu ! device)),
             ReadFuse High (fuseHighBits (targetCpu ! device)), ReadFuse Extended e]) \<and>
    (ok \<longleftrightarrow> l = fuseLowBits (targetCpu ! device) \<and> h = fuseHighBits (targetCpu ! device) \<and>
       (fuseExtendedBits (targetCpu ! device) = 0 \<or> e = fuseExtendedBits (targetCpu ! device)))"
proof -
  define fl where "fl = fuseLowBits (targetCpu ! device)"
  define fh where "fh = fuseHighBits (targetCpu ! device)"
  define fe where "fe = fuseExtendedBits (targetCpu ! device)"
  from write_seq_responsive [OF assms, of "0x64" "0x6C" Low fl]
  obtain s1 n1 n2 where 1: "writeFuseLowBits fl s = Some s1" "seg s s1"
    "commands_of s s1 = WriteFuse Low fl # replicate n1 Busy @ [Ready, LoadNop]
        @ replicate n2 Busy @ [Ready]"
    unfolding write_seq_eqs by auto
  have r1: "responsive s1" using seg_responsive [OF 1(2)] assms(2) by simp
  from write_seq_responsive [OF seg_clock [OF 1(2)] r1, of "0x74" "0x7C" High fh]
  obtain s2 m1 m2 where 2: "writeFuseHighBits fh s1 = Some s2" "seg s1 s2"
    "commands_of s1 s2 = WriteFuse High fh # replicate m1 Busy @ [Ready, LoadNop]
        @ replicate m2 Busy @ [Ready]"
    unfolding write_seq_eqs by auto
  have r2: "responsive s2" using seg_responsive [OF 2(2)] r1 by simp
  have "\<exists>s3. (if fe \<noteq> 0 then writeFuseExtendedBits fe s2 else Some s2) = Some s3 \<and> seg s2 s3 \<and>
      fuse_reads (commands_of s2 s3) = [] \<and>
      fuse_writes (commands_of s2 s3) = (if fe \<noteq> 0 then [(Extended, fe)] else [])"
  proof (cases "fe = 0")
    case True
    then show ?thesis
      using seg_refl [OF seg_clock [OF 2(2)]] by (simp add: commands_of_def emitted_def)
  next
    case False
    from write_seq_responsive [OF seg_clock [OF 2(2)] r2, of "0x66" "0x6E" Extended fe]
    obtain s3 j1 j2 where "writeFuseExtendedBits fe s2 = Some s3" "seg s2 s3"
      "commands_of s2 s3 = WriteFuse Extended fe # replicate j1 Busy @ [Ready, LoadNop]
        @ replicate j2 Busy @ [Ready]"
      unfolding write_seq_eqs by auto
    with False show ?thesis by simp
  qed
  then obtain s3 where 3: "(if fe \<noteq> 0 then writeFuseExtendedBits fe s2 else Some s2) = Some s3"
    "seg s2 s3" "fuse_reads (commands_of s2 s3) = []"
    "fuse_writes (commands_of s2 s3) = (if fe \<noteq> 0 then [(Extended, fe)] else [])"
    by blast
  define s4 where "s4 = snd (verify fl fh fe s3)"
  define ok where "ok = fst (verify fl fh fe s3)"
  from verify_seg [OF seg_clock [OF 3(2)], of fl fh fe]
  obtain l h e where 4: "seg s3 s4"
    "commands_of s3 s4 =
      (if l \<noteq> fl then [ReadFuse Low l]
       else if h \<noteq> fh then [ReadFuse Low fl, ReadFuse High h]
       else if fe = 0 then [ReadFuse Low fl, ReadFuse High fh]
       else [ReadFuse Low fl, ReadFuse High fh, ReadFuse Extended e])"
    "ok \<longleftrightarrow> l = fl \<and> h = fh \<and> (fe = 0 \<or> e = fe)"
    unfolding s4_def ok_def by blast
  have run: "restore_and_verify device s = Some (ok, s4)"
    using 1(1) 2(1) 3(1)
    by (simp add: restore_and_verify_def fl_def [symmetric] fh_def [symmetric]
        fe_def [symmetric] ok_def s4_def)
  have 12: "seg s s2" "commands_of s s2 = commands_of s s1 @ commands_of s1 s2"
    using seg_trans [OF 1(2) 2(2)] seg_commands [OF 1(2) 2(2)] by simp_all
  have 123: "seg s s3" "commands_of s s3 = commands_of s s2 @ commands_of s2 s3"
    using seg_trans [OF 12(1) 3(2)] seg_commands [OF 12(1) 3(2)] by simp_all
  have w: "fuse_writes (commands_of s s3) = default_fuses device"
    unfolding 123(2) 12(2)
    by (simp add: 1(3) 2(3) 3(4) default_fuses_def fl_def fh_def fe_def)
  have fr: "fuse_reads (commands_of s s3) = []"
    unfolding 123(2) 12(2)
    by (simp add: 1(3) 2(3) 3(3))
  show ?thesis
    unfolding fl_def [symmetric] fh_def [symmetric] fe_def [symmetric]
    by (rule exI [of _ ok], rule exI [of _ s3], rule exI [of _ s4], rule exI [of _ l],
        rule exI [of _ h], rule exI [of _ e], intro conjI) fact+
qed

text \<open>
  Claim C4, as stated: after the fuses of a matched record are written, the verification
  reads back all three fuse bytes, the extended one being skipped when the stored
  extended value is zero. It does not: \<^verbatim>\<open>&&\<close> stops at the first byte that differs. On the
  board with an ATtiny24 whose fuse bytes read \<^verbatim>\<open>0xFF\<close>, the attempt matches record 1,
  whose stored extended value is \<^verbatim>\<open>0xFF\<close>, writes \<^verbatim>\<open>0x62\<close>, \<^verbatim>\<open>0xDF\<close> and \<^verbatim>\<open>0xFF\<close>, and then reads
  the low fuse byte only.
\<close>

theorem verify_reads_all_counterexample:
  "map_option fst (attempt tiny24_board) = Some False \<and>
   fuseExtendedBits (targetCpu ! 1) = 0xFF \<and>
   fuse_writes (commands_of tiny24_board (snd (the (attempt tiny24_board)))) =
     [(Low, 0x62), (High, 0xDF), (Extended, 0xFF)] \<and>
   fuse_reads (commands_of tiny24_board (snd (the (attempt tiny24_board)))) = [(Low, 0xFF)] \<and>
   map fst (fuse_reads (commands_of tiny24_board (snd (the (attempt tiny24_board))))) \<noteq>
     [Low, High, Extended]"
  using tiny24_attempt by auto

text \<open>
  Claim C4, amended. The restore step for record \<open>device\<close>, on a target that completes its
  polls, first writes the fuse values of the record and then verifies them: it reads back
  the low fuse byte; it reads back the high fuse byte only if the low byte was read back
  as written, and the extended fuse byte only if both were read back as written and the
  stored extended value is not zero. Its result is success if and only if every value
  that was written has been read back identical, that is if and only if the fuse reads
  on the bus are exactly the fuse writes on the bus.
\<close>

theorem verify_reads_back:
  "device < length targetCpu \<Longrightarrow> \<not> bit (PORTC s) HVSP_SCI \<Longrightarrow> responsive s \<Longrightarrow>
    \<exists>ok s' W R l h e.
      restore_and_verify device s = Some (ok, s') \<and>
      commands_of s s' = W @ R \<and>
      fuse_writes W =
        [(Low, fuseLowBits (targetCpu ! device)), (High, fuseHighBits (targetCpu ! device))]
        @ (if fuseExtendedBits (targetCpu ! device) \<noteq> 0
           then [(Extended, fuseExtendedBits (targetCpu ! device))] else []) \<and>
      fuse_reads W = [] \<and>
      R =
        (if l \<noteq> fuseLowBits (targetCpu ! device) then [ReadFuse Low l]
         else if h \<noteq> fuseHighBits (targetCpu ! device)
           then [ReadFuse Low (fuseLowBits (targetCpu ! device)), ReadFuse High h]
         else if fuseExtendedBits (targetCpu ! device) = 0
           then [ReadFuse Low (fuseLowBits (targetCpu ! device)),
                 ReadFuse High (fuseHighBits (targetCpu ! device))]
         else [ReadFuse Low (fuseLowBits (targetCpu ! device)),
               ReadFuse High (fuseHighBits (targetCpu ! device)), ReadFuse Extended e]) \<and>
      (ok \<longleftrightarrow> l = fuseLowBits (targetCpu ! device) \<and> h = fuseHighBits (targetCpu ! device) \<and>
         (fuseExtendedBits (targetCpu ! device) = 0 \<or>
          e = fuseExtendedBits (targetCpu ! device))) \<and>
      (ok \<longleftrightarrow> fuse_reads (commands_of s s') = fuse_writes (commands_of s s'))"
proof -
  assume c: "\<not> bit (PORTC s) HVSP_SCI" and r: "responsive s"
  define fl where "fl = fuseLowBits (targetCpu ! device)"
  define fh where "fh = fuseHighBits (targetCpu ! device)"
  define fe where "fe = fuseExtendedBits (targetCpu ! device)"
  from restore_then_verify [OF c r, of device]
  obtain ok s3 s' l h e where run: "restore_and_verify device s = Some (ok, s')"
    and sg: "seg s s3" "seg s3 s'"
    and w: "fuse_writes (commands_of s s3) =
        [(Low, fl), (High, fh)] @ (if fe \<noteq> 0 then [(Extended, fe)] else [])"
    and fr: "fuse_reads (commands_of s s3) = []"
    and rd: "commands_of s3 s' =
      (if l \<noteq> fl then [ReadFuse Low l]
       else if h \<noteq> fh then [ReadFuse Low fl, ReadFuse High h]
       else if fe = 0 then [ReadFuse Low fl, ReadFuse High fh]
       else [ReadFuse Low fl, ReadFuse High fh, ReadFuse Extended e])"
    and ok: "ok \<longleftrightarrow> l = fl \<and> h = fh \<and> (fe = 0 \<or> e = fe)"
    unfolding default_fuses_def fl_def fh_def fe_def by blast
  have com: "commands_of s s' = commands_of s s3 @ commands_of s3 s'"
    by (rule seg_commands [OF sg])
  have eq: "ok \<longleftrightarrow> fuse_reads (commands_of s s') = fuse_writes (commands_of s s')"
    unfolding com fuse_reads_append fuse_writes_append fr w ok rd by auto
  show ?thesis
    unfolding fl_def [symmetric] fh_def [symmetric] fe_def [symmetric]
    by (rule exI [of _ ok], rule exI [of _ s'], rule exI [of _ "commands_of s s3"],
        rule exI [of _ "commands_of s3 s'"], rule exI [of _ l], rule exI [of _ h],
        rule exI [of _ e], intro conjI) fact+
qed

theorem verify_reads_back_witness:
  "1 < length targetCpu \<and>
   fst (scan_devices 0 (power_up tiny24_board)) = Some 1 \<and>
   \<not> bit (PORTC (snd (scan_devices 0 (power_up tiny24_board)))) HVSP_SCI \<and>
   responsive (snd (scan_devices 0 (power_up tiny24_board))) \<and>
   (\<exists>s'. restore_and_verify 1 (snd (scan_devices 0 (power_up tiny24_board))) = Some (False, s') \<and>
      fuse_writes (commands_of (snd (scan_devices 0 (power_up tiny24_board))) s') =
        [(Low, 0x62), (High, 0xDF), (Extended, 0xFF)] \<and>
      fuse_reads (commands_of (snd (scan_devices 0 (power_up tiny24_board))) s') =
        [(Low, 0xFF)]) \<and>
   0 < length targetCpu \<and>
   fst (scan_devices 0 (power_up tiny13_board)) = Some 0 \<and>
   \<not> bit (PORTC (snd (scan_devices 0 (power_up tiny13_board)))) HVSP_SCI \<and>
   responsive (snd (scan_devices 0 (power_up tiny13_board))) \<and>
   (\<exists>s'. restore_and_verify 0 (snd (scan_devices 0 (power_up tiny13_board))) = Some (True, s') \<and>
      fuse_writes (commands_of (snd (scan_devices 0 (power_up tiny13_board))) s') =
        [(Low, 0x6A), (High, 0xFF)] \<and>
      fuse_reads (commands_of (snd (scan_devices 0 (power_up tiny13_board))) s') =
        [(Low, 0x6A), (High, 0xFF)])"
proof -
  define a0 where "a0 = power_up tiny24_board"
  have fa: "\<not> bit (PORTC a0) HVSP_SCI" "PINC_in a0 = tiny24_sdo" "reads a0 = 0"
    "responsive a0"
    by (simp_all add: a0_def)
  from tiny24_scan [OF fa(1,2,3)] obtain t where t: "scan_devices 0 a0 = (Some 1, t)"
    "seg a0 t" "PINC_in t = tiny24_sdo" "reads t = 160"
    by blast
  have ct: "\<not> bit (PORTC t) HVSP_SCI" by (rule seg_clock [OF t(2)])
  have rt: "responsive t" using seg_responsive [OF t(2)] fa(4) by simp
  have l1: "1 < length targetCpu" by simp
  from tiny24_restore [OF ct t(3,4)] obtain s1 where
    r1: "restore_and_verify 1 t = Some (False, s1)"
    "fuse_writes (commands_of t s1) = [(Low, 0x62), (High, 0xDF), (Extended, 0xFF)]"
    "fuse_reads (commands_of t s1) = [(Low, 0xFF)]"
    by blast
  have A: "fst (scan_devices 0 a0) = Some 1" "snd (scan_devices 0 a0) = t"
    by (simp_all add: t(1))
  define b0 where "b0 = power_up tiny13_board"
  define u where "u = snd (signature_matches 0 b0)"
  have fb: "\<not> bit (PORTC b0) HVSP_SCI" "PINC_in b0 = tiny13_sdo" "reads b0 = 0"
    "responsive b0"
    by (simp_all add: b0_def)
  from tiny13_live [OF fb(1) tiny13_answers [OF fb(1,2,3)]]
  have u: "scan_devices 0 b0 = (Some 0, u)" "seg b0 u"
    by (simp_all add: u_def)
  have cu: "\<not> bit (PORTC u) HVSP_SCI" by (rule seg_clock [OF u(2)])
  have ru: "responsive u" using seg_responsive [OF u(2)] fb(4) by simp
  have l0: "0 < length targetCpu" by simp
  from tiny13_restore [OF tiny13_matched [OF fb(2,3)]] obtain s2 where
    r2: "restore_and_verify 0 u = Some (True, s2)"
    unfolding u_def by blast
  from verify_reads_back [OF l0 cu ru] r2
  have e: "fuse_writes (commands_of u s2) = [(Low, 0x6A), (High, 0xFF)]"
    "fuse_reads (commands_of u s2) = [(Low, 0x6A), (High, 0xFF)]"
    by auto
  have B: "fst (scan_devices 0 b0) = Some 0" "snd (scan_devices 0 b0) = u"
    by (simp_all add: u(1))
  show ?thesis
    unfolding a0_def [symmetric] b0_def [symmetric] A B
    using l1 ct rt r1 verify_reads_back [OF l1 ct rt] l0 cu ru r2 e by simp
qed

subsection \<open>Attempts that return\<close>

lemma attempt_returns:
  assumes "responsive s"
  shows "\<exists>ok s'. attempt s = Some (ok, s')"
proof -
  define s0 where "s0 = power_up s"
  have c0: "\<not> bit (PORTC s0) HVSP_SCI" and r0: "responsive s0"
    by (simp_all add: s0_def assms)
  obtain r t where sc: "scan_devices 0 s0 = (r, t)"
    by (cases "scan_devices 0 s0")
  from scan_devices_seg [OF c0, of 0] sc have sg: "seg s0 t" by simp
  have "\<exists>ok s1. restore_loop 0 s0 = Some (ok, s1)"
  proof (cases r)
    case None
    with sc show ?thesis by (auto simp add: restore_loop_scan)
  next
    case (Some d)
    have "responsive t" using seg_responsive [OF sg] r0 by simp
    from restore_and_verify_seg [OF seg_clock [OF sg] this, of d] Some sc
    show ?thesis by (auto simp add: restore_loop_scan)
  qed
  then show ?thesis
    by (auto simp add: attempt_def s0_def)
qed

lemma tiny13_board_attempt: "\<exists>s'. attempt tiny13_board = Some (True, s')"
proof -
  define s0 where "s0 = power_up tiny13_board"
  have f0: "\<not> bit (PORTC s0) HVSP_SCI" "PINC_in s0 = tiny13_sdo" "reads s0 = 0"
    by (simp_all add: s0_def)
  from tiny13_live [OF f0(1) tiny13_answers [OF f0]]
  have "scan_devices 0 s0 = (Some 0, snd (signature_matches 0 s0))" by simp
  moreover from tiny13_restore [OF tiny13_matched [OF f0(2,3)]]
  obtain s1 where "restore_and_verify 0 (snd (signature_matches 0 s0)) = Some (True, s1)"
    by blast
  ultimately have "restore_loop 0 s0 = Some (True, s1)"
    by (simp add: restore_loop_scan)
  then show ?thesis
    by (simp add: attempt_def s0_def)
qed

text \<open>
  Claim C8. An attempt on a target that completes its polls returns, and every attempt
  that returns has gone through power-down, on the state the device loop left. Power-down
  writes to the port in this order: clock line low, instruction line low, data line low,
  reset pin high (which takes the 12 V programming voltage off the target), then it waits
  10 microseconds, and with its last write it switches the supply off. The supply and
  the programming voltage are both on when power-down starts, they stay on while the
  three programming lines are taken low, the programming voltage goes off with the
  fourth write while the supply is still on, and the supply goes off with the write after
  the delay. In the whole attempt no write to the port switches the supply off while the
  programming voltage is on.
\<close>

theorem power_down_order:
  "responsive s \<or> attempt s \<noteq> None \<Longrightarrow>
    \<exists>ok s' s1 p1 p2 p3 p4 p5.
      attempt s = Some (ok, s') \<and>
      restore_loop 0 (power_up s) = Some (ok, s1) \<and>
      s' = report_loop 0 ok (power_down s1) \<and>
      trace (power_down s1) =
        trace s1 @ [OutC p1, OutC p2, OutC p3, OutC p4, DelayUs 10, OutC p5] \<and>
      vcc_on (PORTC s1) \<and> hv_on (PORTC s1) \<and>
      map vcc_on [p1, p2, p3, p4, p5] = [True, True, True, True, False] \<and>
      map hv_on [p1, p2, p3, p4, p5] = [True, True, True, False, False] \<and>
      map (\<lambda>p. bit p HVSP_SCI) [p1, p2, p3, p4, p5] = [False, False, False, False, False] \<and>
      map (\<lambda>p. bit p HVSP_SII) [p2, p3, p4, p5] = [False, False, False, False] \<and>
      map (\<lambda>p. bit p HVSP_SDI) [p3, p4, p5] = [False, False, False] \<and>
      power_safe (PORTC s) (emitted s s')"
proof -
  assume "responsive s \<or> attempt s \<noteq> None"
  then obtain ok s' where a: "attempt s = Some (ok, s')"
    using attempt_returns [of s] by auto
  from attempt_run [OF a] obtain s1 where run: "restore_loop 0 (power_up s) = Some (ok, s1)"
    and fin: "s' = report_loop 0 ok (power_down s1)"
    and lv: "vcc_on (PORTC s1)" "hv_on (PORTC s1)"
    and safe: "power_safe (PORTC s) (emitted s s')"
    by blast
  define p1 where "p1 = clear_pin HVSP_SCI (PORTC s1)"
  define p2 where "p2 = clear_pin HVSP_SII p1"
  define p3 where "p3 = clear_pin HVSP_SDI p2"
  define p4 where "p4 = set_pin HVSP_RST p3"
  define p5 where "p5 = clear_pin HVSP_VCC p4"
  have tr: "trace (power_down s1) =
      trace s1 @ [OutC p1, OutC p2, OutC p3, OutC p4, DelayUs 10, OutC p5]"
    by (simp add: power_down_eq power_down_events_def Let_def p1_def p2_def p3_def p4_def p5_def)
  have v: "map vcc_on [p1, p2, p3, p4, p5] = [True, True, True, True, False]"
    using lv by (simp add: vcc_on_def p1_def p2_def p3_def p4_def p5_def pin_distinct)
  have h: "map hv_on [p1, p2, p3, p4, p5] = [True, True, True, False, False]"
    using lv by (simp add: hv_on_def p1_def p2_def p3_def p4_def p5_def pin_distinct)
  have l: "map (\<lambda>p. bit p HVSP_SCI) [p1, p2, p3, p4, p5] = [False, False, False, False, False]"
    "map (\<lambda>p. bit p HVSP_SII) [p2, p3, p4, p5] = [False, False, False, False]"
    "map (\<lambda>p. bit p HVSP_SDI) [p3, p4, p5] = [False, False, False]"
    by (simp_all add: p1_def p2_def p3_def p4_def p5_def pin_distinct pin_facts)
  show ?thesis
    by (rule exI [of _ ok], rule exI [of _ s'], rule exI [of _ s1], rule exI [of _ p1],
        rule exI [of _ p2], rule exI [of _ p3], rule exI [of _ p4], rule exI [of _ p5],
        intro conjI) fact+
qed

theorem power_down_order_witness:
  "responsive tiny13_board \<and>
   (\<exists>s' s1 p1 p2 p3 p4 p5.
     attempt tiny13_board = Some (True, s') \<and>
     restore_loop 0 (power_up tiny13_board) = Some (True, s1) \<and>
     trace (power_down s1) =
       trace s1 @ [OutC p1, OutC p2, OutC p3, OutC p4, DelayUs 10, OutC p5] \<and>
     map vcc_on [PORTC s1, p1, p2, p3, p4, p5] = [True, True, True, True, True, False] \<and>
     map hv_on [PORTC s1, p1, p2, p3, p4, p5] = [True, True, True, True, False, False] \<and>
     power_safe (PORTC tiny13_board) (emitted tiny13_board s')) \<and>
   attempt high_board \<noteq> None \<and>
   (\<exists>s' s1 p1 p2 p3 p4 p5.
     attempt high_board = Some (False, s') \<and>
     restore_loop 0 (power_up high_board) = Some (False, s1) \<and>
     trace (power_down s1) =
       trace s1 @ [OutC p1, OutC p2, OutC p3, OutC p4, DelayUs 10, OutC p5] \<and>
     map vcc_on [PORTC s1, p1, p2, p3, p4, p5] = [True, True, True, True, True, False] \<and>
     map hv_on [PORTC s1, p1, p2, p3, p4, p5] = [True, True, True, True, False, False] \<and>
     power_safe (PORTC high_board) (emitted high_board s'))"
proof -
  have r: "responsive tiny13_board" by simp
  from tiny13_board_attempt obtain t' where a: "attempt tiny13_board = Some (True, t')"
    by blast
  from power_down_order [of tiny13_board, OF disjI1 [OF r]]
  obtain ok s' s1 p1 p2 p3 p4 p5 where
    o: "attempt tiny13_board = Some (ok, s')"
      "restore_loop 0 (power_up tiny13_board) = Some (ok, s1)"
      "trace (power_down s1) =
        trace s1 @ [OutC p1, OutC p2, OutC p3, OutC p4, DelayUs 10, OutC p5]"
      "vcc_on (PORTC s1)" "hv_on (PORTC s1)"
      "map vcc_on [p1, p2, p3, p4, p5] = [True, True, True, True, False]"
      "map hv_on [p1, p2, p3, p4, p5] = [True, True, True, False, False]"
      "power_safe (PORTC tiny13_board) (emitted tiny13_board s')"
    by (elim exE conjE) (rule that)
  from o(1) a have ok: "ok = True" "s' = t'" by simp_all
  have v: "map vcc_on [PORTC s1, p1, p2, p3, p4, p5] = [True, True, True, True, True, False]"
    "map hv_on [PORTC s1, p1, p2, p3, p4, p5] = [True, True, True, True, False, False]"
    using o(4,5,6,7) by simp_all
  note f = o(1,2,3) [unfolded ok] v o(8) [unfolded ok]
  have 1: "\<exists>s' s1 p1 p2 p3 p4 p5.
     attempt tiny13_board = Some (True, s') \<and>
     restore_loop 0 (power_up tiny13_board) = Some (True, s1) \<and>
     trace (power_down s1) =
       trace s1 @ [OutC p1, OutC p2, OutC p3, OutC p4, DelayUs 10, OutC p5] \<and>
     map vcc_on [PORTC s1, p1, p2, p3, p4, p5] = [True, True, True, True, True, False] \<and>
     map hv_on [PORTC s1, p1, p2, p3, p4, p5] = [True, True, True, True, False, False] \<and>
     power_safe (PORTC tiny13_board) (emitted tiny13_board s')"
    by (rule exI [of _ t'], rule exI [of _ s1], rule exI [of _ p1], rule exI [of _ p2],
        rule exI [of _ p3], rule exI [of _ p4], rule exI [of _ p5], intro conjI) (rule f)+
  from high_attempt [of high_board] obtain h' where b: "attempt high_board = Some (False, h')"
    by auto
  then have n: "attempt high_board \<noteq> None" by simp
  from power_down_order [of high_board, OF disjI2 [OF n]]
  obtain ok2 u' u1 q1 q2 q3 q4 q5 where
    u: "attempt high_board = Some (ok2, u')"
      "restore_loop 0 (power_up high_board) = Some (ok2, u1)"
      "trace (power_down u1) =
        trace u1 @ [OutC q1, OutC q2, OutC q3, OutC q4, DelayUs 10, OutC q5]"
      "vcc_on (PORTC u1)" "hv_on (PORTC u1)"
      "map vcc_on [q1, q2, q3, q4, q5] = [True, True, True, True, False]"
      "map hv_on [q1, q2, q3, q4, q5] = [True, True, True, False, False]"
      "power_safe (PORTC high_board) (emitted high_board u')"
    by (elim exE conjE) (rule that)
  from u(1) b have ok2: "ok2 = False" "u' = h'" by simp_all
  have w: "map vcc_on [PORTC u1, q1, q2, q3, q4, q5] = [True, True, True, True, True, False]"
    "map hv_on [PORTC u1, q1, q2, q3, q4, q5] = [True, True, True, True, False, False]"
    using u(4,5,6,7) by simp_all
  note g = u(1,2,3) [unfolded ok2] w u(8) [unfolded ok2]
  have 2: "\<exists>s' s1 p1 p2 p3 p4 p5.
     attempt high_board = Some (False, s') \<and>
     restore_loop 0 (power_up high_board) = Some (False, s1) \<and>
     trace (power_down s1) =
       trace s1 @ [OutC p1, OutC p2, OutC p3, OutC p4, DelayUs 10, OutC p5] \<and>
     map vcc_on [PORTC s1, p1, p2, p3, p4, p5] = [True, True, True, True, True, False] \<and>
     map hv_on [PORTC s1, p1, p2, p3, p4, p5] = [True, True, True, True, False, False] \<and>
     power_safe (PORTC high_board) (emitted high_board s')"
    by (rule exI [of _ h'], rule exI [of _ u1], rule exI [of _ q1], rule exI [of _ q2],
        rule exI [of _ q3], rule exI [of _ q4], rule exI [of _ q5], intro conjI) (rule g)+
  from r 1 n 2 show ?thesis by (intro conjI)
qed

subsection \<open>The signature reads of an attempt\<close>




lemma tiny24_queries: "signature_queries targetCpu [0x1E, 0x91, 0x0B] = [0, 1, 0, 1, 2]"
  by (simp add: targetCpu_def SIGNATURE_0_def)




subsection \<open>Passes through the main loop\<close>

lemma set_pin_twice [simp]: "set_pin n (set_pin n p) = set_pin n p"
  by (simp add: set_pin_def or.assoc)

lemma idle_pass:
  "bit (PINB_in s (reads s)) SWITCH_PIN \<Longrightarrow> main_body s = Some (idle_state (Suc 0) s)"
  by (simp add: main_body_eq led_check idle_state_def)

lemma idle_state_Suc:
  "idle_state n (idle_state (Suc 0) s) = idle_state (Suc n) s"
proof (cases n)
  case 0
  then show ?thesis by (simp add: idle_state_def)
next
  case (Suc k)
  have "[0..<Suc (Suc k)] = 0 # map Suc [0..<Suc k]"
    unfolding map_Suc_upt by (rule upt_conv_Cons) simp
  moreover have "[0..<Suc 0] = [0]" by simp
  ultimately show ?thesis
    unfolding Suc by (simp add: idle_state_def comp_def del: upt_Suc)
qed

lemma main_loop_idle:
  "\<forall>i<n. bit (PINB_in s (reads s + i)) SWITCH_PIN \<Longrightarrow> main_loop n s = Some (idle_state n s)"
proof (induction n arbitrary: s)
  case 0
  show ?case by (simp add: idle_state_def)
next
  case (Suc n)
  from Suc.prems have b: "bit (PINB_in s (reads s)) SWITCH_PIN"
    by (metis add.right_neutral zero_less_Suc)
  have "\<forall>i<n. bit (PINB_in (idle_state (Suc 0) s) (reads (idle_state (Suc 0) s) + i)) SWITCH_PIN"
    using Suc.prems by (auto simp add: idle_state_def)
  from Suc.IH [OF this] show ?case
    by (simp add: idle_pass [OF b] idle_state_Suc)
qed

lemma main_loop_add:
  "main_loop (m + k) s = (case main_loop m s of None \<Rightarrow> None | Some t \<Rightarrow> main_loop k t)"
  by (induction m arbitrary: s) (auto split: option.splits)

lemma main_init_fields [simp]:
  "PINB_in (main_init r) = PINB_in r" "PINC_in (main_init r) = PINC_in r"
  "reads (main_init r) = reads r" "PORTC (main_init r) = PORTC r"
  "responsive (main_init r) = responsive r"
  by (simp_all add: main_init_def set_DDRB_def PORTB_set_bit_def DDRB_clear_bit_def
      set_PORTB_def responsive_def sdo_high_def Let_def)

lemma led_check_fields [simp]:
  "PINB_in (snd (read_PINB (PORTB_set_bit LED_PIN s))) = PINB_in s"
  "PINC_in (snd (read_PINB (PORTB_set_bit LED_PIN s))) = PINC_in s"
  "reads (snd (read_PINB (PORTB_set_bit LED_PIN s))) = reads s + 1"
  "PORTB (snd (read_PINB (PORTB_set_bit LED_PIN s))) = set_pin LED_PIN (PORTB s)"
  "responsive (snd (read_PINB (PORTB_set_bit LED_PIN s))) = responsive s"
  by (simp_all add: led_check responsive_def sdo_high_def)

subsection \<open>The ATtiny13 seen some reads later\<close>

lemma rx_byte_shift: "rx_byte (\<lambda>n. f (n - c)) (c + t) = rx_byte f t"
  by (simp add: rx_byte_def add.assoc)

lemma tiny13_answers_at:
  assumes "\<not> bit (PORTC s) HVSP_SCI" "PINC_in s = (\<lambda>n. tiny13_sdo (n - c))" "reads s = c"
  shows "signature_answers [0x1E, 0x90, 0x07] 0 s"
proof -
  have l: "0 < length targetCpu" by simp
  have n: "signature_byte 0 0 \<noteq> 0" by simp
  have b: "rx_byte (PINC_in s) (reads s + 24) = signature_byte 0 0"
    "rx_byte (PINC_in s) (reads s + 56) = signature_byte 0 1"
    "rx_byte (PINC_in s) (reads s + 88) = signature_byte 0 2"
    by (simp_all add: assms rx_byte_shift signature_byte_def targetCpu_def SIGNATURE_0_def)
  from scan_devices_match [OF assms(1) l n b]
  have "scan_devices 0 s = (Some 0, snd (signature_matches 0 s))"
    "commands_of s (snd (signature_matches 0 s)) =
      [ReadSignature 0 (signature_byte 0 0), ReadSignature 1 (signature_byte 0 1),
       ReadSignature 2 (signature_byte 0 2)]"
    by blast+
  then show ?thesis
    unfolding signature_answers_def
    by (simp add: signature_byte_def targetCpu_def SIGNATURE_0_def)
qed

lemma tiny13_matched_at:
  assumes "PINC_in s = (\<lambda>n. tiny13_sdo (n - c))" "reads s = c"
  shows "PINC_in (snd (signature_matches 0 s)) = (\<lambda>n. tiny13_sdo (n - c))"
    "reads (snd (signature_matches 0 s)) = c + 96"
  by (simp_all add: signature_matches_fields assms rx_byte_shift)

lemma tiny13_polls_at:
  "poll_ends (\<lambda>n. tiny13_sdo (n - c)) (c + 128) (c + 128)"
  "poll_ends (\<lambda>n. tiny13_sdo (n - c)) (c + 137) (c + 137)"
  "poll_ends (\<lambda>n. tiny13_sdo (n - c)) (c + 170) (c + 170)"
  "poll_ends (\<lambda>n. tiny13_sdo (n - c)) (c + 179) (c + 179)"
  by (simp_all add: poll_ends_def tiny13_sdo_def HVSP_SDO_def)

lemma tiny13_restore_at:
  assumes "PINC_in t = (\<lambda>n. tiny13_sdo (n - c))" "reads t = c + 96"
  shows "\<exists>s1. restore_and_verify 0 t = Some (True, s1)"
proof -
  have p1: "poll_ends (PINC_in t) (reads t + 32) (c + 128)"
    "poll_ends (PINC_in t) (c + 128 + 9) (c + 137)"
    by (simp_all add: assms tiny13_polls_at add.assoc)
  from write_seq_Some [OF p1, of "0x64" "0x6C" "0x6A"]
  obtain t1 where w1: "writeFuseLowBits 0x6A t = Some t1"
    and f1: "PINC_in t1 = (\<lambda>n. tiny13_sdo (n - c))" "reads t1 = c + 138"
    unfolding write_seq_eqs by (simp add: assms)
  have p2: "poll_ends (PINC_in t1) (reads t1 + 32) (c + 170)"
    "poll_ends (PINC_in t1) (c + 170 + 9) (c + 179)"
    by (simp_all add: f1 tiny13_polls_at add.assoc)
  from write_seq_Some [OF p2, of "0x74" "0x7C" "0xFF"]
  obtain t2 where w2: "writeFuseHighBits 0xFF t1 = Some t2"
    and f2: "PINC_in t2 = (\<lambda>n. tiny13_sdo (n - c))" "reads t2 = c + 180"
    unfolding write_seq_eqs by (simp add: f1)
  have v: "fst (verify 0x6A 0xFF 0 t2)"
    by (simp add: verify_def readFuseLowBits_eq readFuseHighBits_eq f2 add.assoc rx_byte_shift)
  show ?thesis
    using w1 w2 v
    by (simp add: restore_and_verify_def prod_eq_iff)
qed

lemma tiny13_attempt_at:
  assumes "PINC_in s = (\<lambda>n. tiny13_sdo (n - c))" "reads s = c"
  shows "\<exists>s'. attempt s = Some (True, s')"
proof -
  define s0 where "s0 = power_up s"
  have f0: "\<not> bit (PORTC s0) HVSP_SCI" "PINC_in s0 = (\<lambda>n. tiny13_sdo (n - c))" "reads s0 = c"
    by (simp_all add: s0_def assms)
  from tiny13_live [OF f0(1) tiny13_answers_at [OF f0]]
  have "scan_devices 0 s0 = (Some 0, snd (signature_matches 0 s0))" by simp
  moreover from tiny13_restore_at [OF tiny13_matched_at [OF f0(2,3)]]
  obtain s1 where "restore_and_verify 0 (snd (signature_matches 0 s0)) = Some (True, s1)"
    by blast
  ultimately have "restore_loop 0 s0 = Some (True, s1)"
    by (simp add: restore_loop_scan)
  then show ?thesis
    by (simp add: attempt_def s0_def)
qed

lemma tiny13_pressed_simps [simp]:
  "PINC_in tiny13_pressed_board = (\<lambda>n. tiny13_sdo (n - 1))" "reads tiny13_pressed_board = 0"
  "PINB_in tiny13_pressed_board = (\<lambda>n. if n = 0 then 0 else 2)"
  "PORTB tiny13_pressed_board = 0"
  by (simp_all add: tiny13_pressed_board_def bench_def)

lemma tiny13_pressed_responsive [simp]: "responsive tiny13_pressed_board"
  unfolding responsive_def sdo_high_def
proof
  fix t
  have "t \<le> t + 205" "bit (PINC_in tiny13_pressed_board (t + 205)) HVSP_SDO"
    by (simp_all add: tiny13_sdo_def HVSP_SDO_def)
  then show "\<exists>k\<ge>t. bit (PINC_in tiny13_pressed_board k) HVSP_SDO" by blast
qed

lemma pressed_once_responsive [simp]: "responsive pressed_once_board"
  by (auto simp add: responsive_def sdo_high_def HVSP_SDO_def)

text \<open>
  Claim C9. A pass through the main loop that finds the push button pressed, on a target
  that completes its polls, returns. The events after power-down are those of the
  reporting loop and nothing else: sixteen times a write to the indicator port followed
  by a delay of 250 ms, 4000 ms in all. After an attempt that succeeded the indicator is
  lit after each of the sixteen writes; after one that failed it is lit after the first
  write, dark after the second, and so on. Then the main loop goes on: as long as the
  push button is found released, each further pass switches the indicator off and reads
  the button, and does nothing else. This holds for the loop started in any state, and
  so for \<open>main\<close>, whatever the number of passes before.
\<close>

theorem report_then_idle:
  "\<not> bit (PINB_in s (reads s)) SWITCH_PIN \<Longrightarrow> responsive s \<or> main_body s \<noteq> None \<Longrightarrow>
    \<exists>ok s1 s'.
      main_body s = Some s' \<and>
      restore_loop 0 (power_up (snd (read_PINB (PORTB_set_bit LED_PIN s)))) = Some (ok, s1) \<and>
      trace s' = trace (power_down s1) @ emitted (power_down s1) s' \<and>
      emitted (power_down s1) s' = report_events ok (set_pin LED_PIN (PORTB s)) \<and>
      length (emitted (power_down s1) s') = 32 \<and>
      delays_ms (emitted (power_down s1) s') = replicate 16 250 \<and>
      sum_list (delays_ms (emitted (power_down s1) s')) = 4000 \<and>
      indicator (emitted (power_down s1) s') =
        (if ok then replicate 16 True else map even [0..<16]) \<and>
      (\<forall>n. (\<forall>i<n. bit (PINB_in s (reads s' + i)) SWITCH_PIN) \<longrightarrow>
         main_loop (Suc n) s = Some (idle_state n s') \<and>
         (\<forall>m r. main m r = Some s \<longrightarrow> main (m + Suc n) r = Some (idle_state n s')))"
proof -
  assume pressed: "\<not> bit (PINB_in s (reads s)) SWITCH_PIN"
    and ret: "responsive s \<or> main_body s \<noteq> None"
  define s0 where "s0 = snd (read_PINB (PORTB_set_bit LED_PIN s))"
  have mb: "main_body s = map_option snd (attempt s0)"
    using pressed by (simp add: main_body_eq s0_def)
  have "\<exists>ok s'. attempt s0 = Some (ok, s')"
  proof (cases "responsive s")
    case True
    then have "responsive s0" by (simp add: s0_def)
    then show ?thesis by (rule attempt_returns)
  next
    case False
    with ret mb show ?thesis by auto
  qed
  then obtain ok s' where a: "attempt s0 = Some (ok, s')" by blast
  with mb have body: "main_body s = Some s'" by simp
  from attempt_run [OF a] obtain s1 where run: "restore_loop 0 (power_up s0) = Some (ok, s1)"
    and sg: "seg (power_up s0) s1" and fin: "s' = report_loop 0 ok (power_down s1)"
    by blast
  have b: "PORTB (power_down s1) = set_pin LED_PIN (PORTB s)"
    using sg by (simp add: seg_def power_down_eq s0_def)
  have tr: "trace s' = trace (power_down s1) @ report_events ok (set_pin LED_PIN (PORTB s))"
    unfolding fin report_loop_eq b [symmetric] by simp
  then have em: "emitted (power_down s1) s' = report_events ok (set_pin LED_PIN (PORTB s))"
    by (simp add: emitted_def)
  have ind: "indicator (report_events ok (set_pin LED_PIN (PORTB s))) =
      (if ok then replicate 16 True else map even [0..<16])"
    by (cases ok) (simp_all add: report_observed)
  from attempt_frame [OF a] have pb: "PINB_in s' = PINB_in s"
    by (simp add: s0_def)
  have idle: "\<forall>n. (\<forall>i<n. bit (PINB_in s (reads s' + i)) SWITCH_PIN) \<longrightarrow>
         main_loop (Suc n) s = Some (idle_state n s') \<and>
         (\<forall>m r. main m r = Some s \<longrightarrow> main (m + Suc n) r = Some (idle_state n s'))"
  proof (intro allI impI)
    fix n assume "\<forall>i<n. bit (PINB_in s (reads s' + i)) SWITCH_PIN"
    then have "\<forall>i<n. bit (PINB_in s' (reads s' + i)) SWITCH_PIN"
      by (simp add: pb)
    from main_loop_idle [OF this] have 1: "main_loop (Suc n) s = Some (idle_state n s')"
      by (simp add: body)
    have "main (m + Suc n) r = Some (idle_state n s')" if "main m r = Some s" for m r
      using that 1 unfolding main_def main_loop_add by simp
    with 1 show "main_loop (Suc n) s = Some (idle_state n s') \<and>
         (\<forall>m r. main m r = Some s \<longrightarrow> main (m + Suc n) r = Some (idle_state n s'))"
      by blast
  qed
  have 1: "trace s' = trace (power_down s1) @ emitted (power_down s1) s'"
    "length (emitted (power_down s1) s') = 32"
    "delays_ms (emitted (power_down s1) s') = replicate 16 250"
    "sum_list (delays_ms (emitted (power_down s1) s')) = 4000"
    "indicator (emitted (power_down s1) s') =
        (if ok then replicate 16 True else map even [0..<16])"
    unfolding em by (simp_all add: tr report_observed ind sum_delays)
  show ?thesis
    unfolding s0_def [symmetric]
    by (rule exI [of _ ok], rule exI [of _ s1], rule exI [of _ s'], intro conjI)
      (rule body run 1 em idle)+
qed


lemma tiny13_pressed_board_pass:
  "\<exists>s1 s'. main_body (main_init tiny13_pressed_board) = Some s' \<and>
      restore_loop 0
        (power_up (snd (read_PINB (PORTB_set_bit LED_PIN (main_init tiny13_pressed_board))))) =
        Some (True, s1) \<and>
      reads (main_init tiny13_pressed_board) < reads s' \<and> PINB_in s' = PINB_in tiny13_pressed_board"
proof -
  define s0 where "s0 = snd (read_PINB (PORTB_set_bit LED_PIN (main_init tiny13_pressed_board)))"
  have f: "PINC_in s0 = PINC_in tiny13_pressed_board" "reads s0 = 1" "PINB_in s0 = PINB_in tiny13_pressed_board"
    by (simp_all add: s0_def)
  from tiny13_attempt_at [of s0 1, OF _ f(2)] f(1) obtain t' where a: "attempt s0 = Some (True, t')"
    by auto
  then obtain s1 where run: "restore_loop 0 (power_up s0) = Some (True, s1)"
    by (auto simp add: attempt_def split: option.splits)
  have body: "main_body (main_init tiny13_pressed_board) = Some t'"
    using a by (simp add: main_body_eq s0_def [symmetric] SWITCH_PIN_def)
  from attempt_frame [OF a] f have "reads (main_init tiny13_pressed_board) < reads t'"
    "PINB_in t' = PINB_in tiny13_pressed_board"
    by simp_all
  with body run show ?thesis
    unfolding s0_def by blast
qed

lemma pressed_once_board_pass:
  "\<exists>s1 s'. main_body (main_init pressed_once_board) = Some s' \<and>
      restore_loop 0
        (power_up (snd (read_PINB (PORTB_set_bit LED_PIN (main_init pressed_once_board))))) =
        Some (False, s1) \<and>
      reads (main_init pressed_once_board) < reads s' \<and> PINB_in s' = PINB_in pressed_once_board"
proof -
  define s0 where "s0 = snd (read_PINB (PORTB_set_bit LED_PIN (main_init pressed_once_board)))"
  have f: "PINC_in s0 = PINC_in pressed_once_board" "reads s0 = 1" "PINB_in s0 = PINB_in pressed_once_board"
    by (simp_all add: s0_def)
  from high_attempt [of s0] f(1) obtain t' where a: "attempt s0 = Some (False, t')"
    by auto
  then obtain s1 where run: "restore_loop 0 (power_up s0) = Some (False, s1)"
    by (auto simp add: attempt_def split: option.splits)
  have body: "main_body (main_init pressed_once_board) = Some t'"
    using a by (simp add: main_body_eq s0_def [symmetric] SWITCH_PIN_def)
  from attempt_frame [OF a] f have "reads (main_init pressed_once_board) < reads t'"
    "PINB_in t' = PINB_in pressed_once_board"
    by simp_all
  with body run show ?thesis
    unfolding s0_def by blast
qed


theorem report_then_idle_witness:
  "\<not> bit (PINB_in (main_init tiny13_pressed_board) (reads (main_init tiny13_pressed_board)))
       SWITCH_PIN \<and>
   responsive (main_init tiny13_pressed_board) \<and>
   main 0 tiny13_pressed_board = Some (main_init tiny13_pressed_board) \<and>
   (\<exists>s1 s'. main_body (main_init tiny13_pressed_board) = Some s' \<and>
      restore_loop 0
        (power_up (snd (read_PINB (PORTB_set_bit LED_PIN (main_init tiny13_pressed_board))))) =
        Some (True, s1) \<and>
      delays_ms (emitted (power_down s1) s') = replicate 16 250 \<and>
      indicator (emitted (power_down s1) s') = replicate 16 True \<and>
      main 3 tiny13_pressed_board = Some (idle_state 2 s') \<and>
      indicator (emitted s' (idle_state 2 s')) = [False, False]) \<and>
   \<not> bit (PINB_in (main_init pressed_once_board) (reads (main_init pressed_once_board)))
       SWITCH_PIN \<and>
   responsive (main_init pressed_once_board) \<and>
   main 0 pressed_once_board = Some (main_init pressed_once_board) \<and>
   (\<exists>s1 s'. main_body (main_init pressed_once_board) = Some s' \<and>
      restore_loop 0
        (power_up (snd (read_PINB (PORTB_set_bit LED_PIN (main_init pressed_once_board))))) =
        Some (False, s1) \<and>
      delays_ms (emitted (power_down s1) s') = replicate 16 250 \<and>
      indicator (emitted (power_down s1) s') = map even [0..<16] \<and>
      main 3 pressed_once_board = Some (idle_state 2 s') \<and>
      indicator (emitted s' (idle_state 2 s')) = [False, False])"
proof -
  have p1: "\<not> bit (PINB_in (main_init tiny13_pressed_board) (reads (main_init tiny13_pressed_board)))
      SWITCH_PIN"
    by (simp add: SWITCH_PIN_def)
  have r1: "responsive (main_init tiny13_pressed_board)" by simp
  have m1: "main 0 tiny13_pressed_board = Some (main_init tiny13_pressed_board)"
    by (simp add: main_def)
  from tiny13_pressed_board_pass obtain a1 a' where
    k1: "main_body (main_init tiny13_pressed_board) = Some a'"
      "restore_loop 0
        (power_up (snd (read_PINB (PORTB_set_bit LED_PIN (main_init tiny13_pressed_board))))) =
        Some (True, a1)"
      "reads (main_init tiny13_pressed_board) < reads a'" "PINB_in a' = PINB_in tiny13_pressed_board"
    by blast
  from report_then_idle [OF p1 disjI1 [OF r1]] obtain ok s1 s' where
    o1: "main_body (main_init tiny13_pressed_board) = Some s'"
      "restore_loop 0
        (power_up (snd (read_PINB (PORTB_set_bit LED_PIN (main_init tiny13_pressed_board))))) =
        Some (ok, s1)"
      "delays_ms (emitted (power_down s1) s') = replicate 16 250"
      "indicator (emitted (power_down s1) s') =
        (if ok then replicate 16 True else map even [0..<16])"
      "\<forall>n. (\<forall>i<n. bit (PINB_in (main_init tiny13_pressed_board) (reads s' + i)) SWITCH_PIN) \<longrightarrow>
         main_loop (Suc n) (main_init tiny13_pressed_board) = Some (idle_state n s') \<and>
         (\<forall>m r. main m r = Some (main_init tiny13_pressed_board) \<longrightarrow>
            main (m + Suc n) r = Some (idle_state n s'))"
    by (elim exE conjE) (rule that)
  from o1(1,2) k1(1,2) have e1: "s' = a'" "ok = True" "s1 = a1" by simp_all
  have "\<forall>i<2. bit (PINB_in (main_init tiny13_pressed_board) (reads a' + i)) SWITCH_PIN"
    using k1(3) by (simp add: SWITCH_PIN_def)
  with o1(5) [unfolded e1, THEN spec, of 2] m1
  have "main (0 + Suc 2) tiny13_pressed_board = Some (idle_state 2 a')"
    by blast
  then have i1: "main 3 tiny13_pressed_board = Some (idle_state 2 a')"
    by (simp add: numeral_3_eq_3)
  have j1: "indicator (emitted a' (idle_state 2 a')) = [False, False]"
    by (simp add: idle_state_def emitted_def numeral_2_eq_2)
  have d1: "indicator (emitted (power_down a1) a') = replicate 16 True"
    using o1(4) unfolding e1 by simp
  have w1: "(\<exists>s1 s'. main_body (main_init tiny13_pressed_board) = Some s' \<and>
        restore_loop 0
          (power_up (snd (read_PINB (PORTB_set_bit LED_PIN (main_init tiny13_pressed_board))))) =
          Some (True, s1) \<and>
        delays_ms (emitted (power_down s1) s') = replicate 16 250 \<and>
        indicator (emitted (power_down s1) s') = replicate 16 True \<and>
        main 3 tiny13_pressed_board = Some (idle_state 2 s') \<and>
        indicator (emitted s' (idle_state 2 s')) = [False, False])"
    by (rule exI [of _ a1], rule exI [of _ a'], intro conjI)
      (rule k1(1,2) o1(3) [unfolded e1] d1 i1 j1)+
  have p2: "\<not> bit (PINB_in (main_init pressed_once_board) (reads (main_init pressed_once_board)))
      SWITCH_PIN"
    by (simp add: SWITCH_PIN_def)
  have r2: "responsive (main_init pressed_once_board)" by simp
  have m2: "main 0 pressed_once_board = Some (main_init pressed_once_board)"
    by (simp add: main_def)
  from pressed_once_board_pass obtain a1 a' where
    k2: "main_body (main_init pressed_once_board) = Some a'"
      "restore_loop 0
        (power_up (snd (read_PINB (PORTB_set_bit LED_PIN (main_init pressed_once_board))))) =
        Some (False, a1)"
      "reads (main_init pressed_once_board) < reads a'" "PINB_in a' = PINB_in pressed_once_board"
    by blast
  from report_then_idle [OF p2 disjI1 [OF r2]] obtain ok s1 s' where
    o2: "main_body (main_init pressed_once_board) = Some s'"
      "restore_loop 0
        (power_up (snd (read_PINB (PORTB_set_bit LED_PIN (main_init pressed_once_board))))) =
        Some (ok, s1)"
      "delays_ms (emitted (power_down s1) s') = replicate 16 250"
      "indicator (emitted (power_down s1) s') =
        (if ok then replicate 16 True else map even [0..<16])"
      "\<forall>n. (\<forall>i<n. bit (PINB_in (main_init pressed_once_board) (reads s' + i)) SWITCH_PIN) \<longrightarrow>
         main_loop (Suc n) (main_init pressed_once_board) = Some (idle_state n s') \<and>
         (\<forall>m r. main m r = Some (main_init pressed_once_board) \<longrightarrow>
            main (m + Suc n) r = Some (idle_state n s'))"
    by (elim exE conjE) (rule that)
  from o2(1,2) k2(1,2) have e2: "s' = a'" "ok = False" "s1 = a1" by simp_all
  have "\<forall>i<2. bit (PINB_in (main_init pressed_once_board) (reads a' + i)) SWITCH_PIN"
    using k2(3) by (simp add: SWITCH_PIN_def)
  with o2(5) [unfolded e2, THEN spec, of 2] m2
  have "main (0 + Suc 2) pressed_once_board = Some (idle_state 2 a')"
    by blast
  then have i2: "main 3 pressed_once_board = Some (idle_state 2 a')"
    by (simp add: numeral_3_eq_3)
  have j2: "indicator (emitted a' (idle_state 2 a')) = [False, False]"
    by (simp add: idle_state_def emitted_def numeral_2_eq_2)
  have d2: "indicator (emitted (power_down a1) a') = map even [0..<16]"
    using o2(4) unfolding e2 by simp
  have w2: "(\<exists>s1 s'. main_body (main_init pressed_once_board) = Some s' \<and>
        restore_loop 0
          (power_up (snd (read_PINB (PORTB_set_bit LED_PIN (main_init pressed_once_board))))) =
          Some (False, s1) \<and>
        delays_ms (emitted (power_down s1) s') = replicate 16 250 \<and>
        indicator (emitted (power_down s1) s') = map even [0..<16] \<and>
        main 3 pressed_once_board = Some (idle_state 2 s') \<and>
        indicator (emitted s' (idle_state 2 s')) = [False, False])"
    by (rule exI [of _ a1], rule exI [of _ a'], intro conjI)
      (rule k2(1,2) o2(3) [unfolded e2] d2 i2 j2)+
  from p1 r1 m1 w1 p2 r2 m2 w2 show ?thesis
    by (intro conjI)
qed

end
